theory Spec2Isabelle
  imports Complex_Main
begin

section \<open>Values shared by the metrics\<close>

text \<open>
  A character sequence is a list of code units; the theory is polymorphic in the code
  unit. A caller of the TypeScript functions may also pass \<open>null\<close> or \<open>undefined\<close>
  where a string is expected, and every metric tests its arguments with \<open>== null\<close>,
  which holds for both.
\<close>

datatype 'a js_arg = Null | Undefined | Str "'a list"

fun eq_null :: "'a js_arg \<Rightarrow> bool" where
  "eq_null Null = True"
| "eq_null Undefined = True"
| "eq_null (Str s) = False"

fun str_of :: "'a js_arg \<Rightarrow> 'a list" where
  "str_of (Str s) = s"
| "str_of Null = []"
| "str_of Undefined = []"

text \<open>\<open>throw new Error(msg)\<close> is the only way a metric fails.\<close>

datatype error = Error string

text \<open>
  \<open>String.prototype.charAt\<close>: the one-character string at an integer position, the
  empty string outside the string.
\<close>

definition charAt :: "'a list \<Rightarrow> int \<Rightarrow> 'a list" where
  "charAt s pos = (if 0 \<le> pos \<and> pos < int (length s) then [s ! nat pos] else [])"

text \<open>
  \<open>createArray(length, defValue)\<close> of util.ts pushes \<open>length\<close> copies of the default
  value; when the default is a function it is called once per element, so the rows of
  a matrix built with it are distinct arrays. Lists are values, so both uses are
  \<open>replicate\<close>.
\<close>

definition createArray :: "nat \<Rightarrow> 'a \<Rightarrow> 'a list" where
  "createArray len defValue = replicate len defValue"

section \<open>Numbers\<close>

text \<open>
  A JavaScript Number is an IEEE double, and every arithmetic operation returns the
  double nearest to the exact result, a tie going to the even mantissa. \<open>double x\<close> is
  that rounding of the rational \<open>x\<close> to 53 significant bits: \<open>norm_round\<close> scales a
  positive \<open>x\<close> by powers of 2 into the range from \<open>2^52\<close> to \<open>2^53\<close>, where the doubles
  are the integers, rounds there and scales back. The exponent range of a double is not
  limited here: the scores below are 0 or lie between \<open>2^-64\<close> and 4, far from overflow
  and from the subnormal numbers.
\<close>

definition round_even :: "rat \<Rightarrow> int" where
  "round_even y =
     (let n = \<lfloor>y\<rfloor>; f = y - of_int n
      in if f < 1 / 2 then n
         else if 1 / 2 < f then n + 1
         else if even n then n else n + 1)"

function norm_round :: "rat \<Rightarrow> rat" where
  "norm_round x =
     (if x \<le> 0 then 0
      else if 2 ^ 53 \<le> x then 2 * norm_round (x / 2)
      else if x < 2 ^ 52 then norm_round (2 * x) / 2
      else of_int (round_even x))"
  by pat_completeness auto
termination
proof (relation "measure (\<lambda>x. if x \<le> 0 then 0
                               else if 2 ^ 52 \<le> x then nat \<lfloor>x\<rfloor>
                               else 2 ^ 53 + nat \<lceil>2 ^ 52 / x\<rceil>)")
  show "wf (measure (\<lambda>x::rat. if x \<le> 0 then 0
                               else if 2 ^ 52 \<le> x then nat \<lfloor>x\<rfloor>
                               else 2 ^ 53 + nat \<lceil>2 ^ 52 / x\<rceil>))"
    by simp
next
  fix x :: rat
  assume "\<not> x \<le> 0" "2 ^ 53 \<le> x"
  then have "x / 2 \<le> x - 1" "2 ^ 52 \<le> x / 2" "2 ^ 52 \<le> x" "0 < x"
    by simp_all
  then have "\<lfloor>x / 2\<rfloor> \<le> \<lfloor>x\<rfloor> - 1" "0 < \<lfloor>x\<rfloor>"
    by (simp_all add: floor_mono flip: floor_diff_one)
  then show "(x / 2, x) \<in> measure (\<lambda>x. if x \<le> 0 then 0
                               else if 2 ^ 52 \<le> x then nat \<lfloor>x\<rfloor>
                               else 2 ^ 53 + nat \<lceil>2 ^ 52 / x\<rceil>)"
    using \<open>2 ^ 52 \<le> x / 2\<close> \<open>2 ^ 52 \<le> x\<close> \<open>0 < x\<close> by simp
next
  fix x :: rat
  assume pos: "\<not> x \<le> 0" and "\<not> 2 ^ 53 \<le> x" and small: "x < 2 ^ 52"
  show "(2 * x, x) \<in> measure (\<lambda>x. if x \<le> 0 then 0
                               else if 2 ^ 52 \<le> x then nat \<lfloor>x\<rfloor>
                               else 2 ^ 53 + nat \<lceil>2 ^ 52 / x\<rceil>)"
  proof (cases "2 ^ 52 \<le> 2 * x")
    case True
    have "2 * x < 2 ^ 53"
      using small by simp
    then have "\<lfloor>2 * x\<rfloor> < (2::int) ^ 53"
      by (simp add: floor_less_iff)
    then have "nat \<lfloor>2 * x\<rfloor> < nat (2 ^ 53)"
      by (simp only: nat_mono_iff zero_less_power zero_less_numeral)
    then have "nat \<lfloor>2 * x\<rfloor> < 2 ^ 53"
      by simp
    then show ?thesis
      using True pos small by simp
  next
    case False
    define y where "y = 2 ^ 52 / x"
    have y: "2 < y"
      using False pos by (simp add: y_def less_divide_eq)
    have half: "2 ^ 52 / (2 * x) = y / 2"
      by (simp add: y_def)
    have int2: "(2::int) \<le> \<lceil>y\<rceil>"
      using y by (simp add: le_ceiling_iff)
    then have "rat_of_int 2 \<le> rat_of_int \<lceil>y\<rceil>"
      by (simp only: of_int_le_iff)
    then have c2: "2 \<le> rat_of_int \<lceil>y\<rceil>"
      by simp
    have "y \<le> rat_of_int \<lceil>y\<rceil>"
      by (rule le_of_int_ceiling)
    then have "y / 2 \<le> rat_of_int \<lceil>y\<rceil> - 1"
      using c2 by linarith
    then have "y / 2 \<le> rat_of_int (\<lceil>y\<rceil> - 1)"
      by simp
    then have "\<lceil>y / 2\<rceil> \<le> \<lceil>y\<rceil> - 1"
      by (simp only: ceiling_le_iff)
    moreover have "0 < \<lceil>y\<rceil>"
      using int2 by linarith
    ultimately have "nat \<lceil>y / 2\<rceil> < nat \<lceil>y\<rceil>"
      by simp
    then have "nat \<lceil>2 ^ 52 / (2 * x)\<rceil> < nat \<lceil>2 ^ 52 / x\<rceil>"
      unfolding half unfolding y_def .
    then show ?thesis
      using False pos small by simp
  qed
qed

declare norm_round.simps [simp del]

definition double :: "rat \<Rightarrow> rat" where
  "double x = (if x < 0 then - norm_round (- x) else norm_round x)"

text \<open>The four operations on doubles: the exact result, rounded.\<close>

definition fl_add :: "rat \<Rightarrow> rat \<Rightarrow> rat" where
  "fl_add x y = double (x + y)"

definition fl_sub :: "rat \<Rightarrow> rat \<Rightarrow> rat" where
  "fl_sub x y = double (x - y)"

definition fl_mul :: "rat \<Rightarrow> rat \<Rightarrow> rat" where
  "fl_mul x y = double (x * y)"

definition fl_div :: "rat \<Rightarrow> rat \<Rightarrow> rat" where
  "fl_div x y = double (x / y)"

text \<open>
  A length or a counter as a Number. Up to \<open>2^53\<close> it is the integer itself, and no
  string is longer than that.
\<close>

definition js_number :: "nat \<Rightarrow> rat" where
  "js_number n = double (of_nat n)"

section \<open>LevenshteinResults\<close>

record LevenshteinResults =
  distance :: int
  insertCount :: int
  deleteCount :: int
  substituteCount :: int

definition new_LevenshteinResults :: "int \<Rightarrow> int \<Rightarrow> int \<Rightarrow> int \<Rightarrow> LevenshteinResults" where
  "new_LevenshteinResults dst ins dl sb =
     \<lparr>distance = dst, insertCount = ins, deleteCount = dl, substituteCount = sb\<rparr>"

section \<open>LevenshteinDetailedDistance: the backtrace\<close>

text \<open>
  \<open>findDetailedResults(left, right, matrix, swapped)\<close>. The \<open>while\<close> loop is the
  recursive function below; its state is the pair of indexes and the three counters.
  Both callers pass a matrix of \<open>right.length + 1\<close> rows of \<open>left.length + 1\<close> cells,
  and the indexes only decrease, so every read is inside the matrix.
\<close>

function findDetailedResults_loop ::
  "'a list \<Rightarrow> 'a list \<Rightarrow> int list list \<Rightarrow> bool \<Rightarrow> int \<Rightarrow> int \<Rightarrow> int \<times> int \<times> int
     \<Rightarrow> int \<times> int \<times> int" where
  "findDetailedResults_loop left right matrix swapped rowIndex columnIndex (addCount, delCount, subCount) =
     (if rowIndex \<ge> 0 \<and> columnIndex \<ge> 0 then
        let dataAtLeft = (if columnIndex = 0 then - 1
                          else matrix ! nat rowIndex ! nat (columnIndex - 1));
            dataAtTop = (if rowIndex = 0 then - 1
                         else matrix ! nat (rowIndex - 1) ! nat columnIndex);
            dataAtDiagonal = (if rowIndex > 0 \<and> columnIndex > 0
                              then matrix ! nat (rowIndex - 1) ! nat (columnIndex - 1)
                              else - 1)
        in if dataAtLeft = - 1 \<and> dataAtTop = - 1 \<and> dataAtDiagonal = - 1
           then (addCount, delCount, subCount)
           else
             let data = matrix ! nat rowIndex ! nat columnIndex
             in if columnIndex > 0 \<and> rowIndex > 0
                   \<and> charAt left (columnIndex - 1) = charAt right (rowIndex - 1)
                then findDetailedResults_loop left right matrix swapped
                       (rowIndex - 1) (columnIndex - 1) (addCount, delCount, subCount)
                else if (data - 1 = dataAtLeft \<and> (data \<le> dataAtDiagonal \<and> data \<le> dataAtTop))
                        \<or> (dataAtDiagonal = - 1 \<and> dataAtTop = - 1)
                then (if swapped
                      then findDetailedResults_loop left right matrix swapped
                             rowIndex (columnIndex - 1) (addCount + 1, delCount, subCount)
                      else findDetailedResults_loop left right matrix swapped
                             rowIndex (columnIndex - 1) (addCount, delCount + 1, subCount))
                else if (data - 1 = dataAtTop \<and> (data \<le> dataAtDiagonal \<and> data \<le> dataAtLeft))
                        \<or> (dataAtDiagonal = - 1 \<and> dataAtLeft = - 1)
                then (if swapped
                      then findDetailedResults_loop left right matrix swapped
                             (rowIndex - 1) columnIndex (addCount, delCount + 1, subCount)
                      else findDetailedResults_loop left right matrix swapped
                             (rowIndex - 1) columnIndex (addCount + 1, delCount, subCount))
                else findDetailedResults_loop left right matrix swapped
                       (rowIndex - 1) (columnIndex - 1) (addCount, delCount, subCount + 1)
      else (addCount, delCount, subCount))"
  by pat_completeness auto
termination
  by (relation "measure (\<lambda>(left, right, matrix, swapped, rowIndex, columnIndex, acc).
        nat (rowIndex + columnIndex + 2))") auto

declare findDetailedResults_loop.simps [simp del]

definition findDetailedResults ::
  "'a list \<Rightarrow> 'a list \<Rightarrow> int list list \<Rightarrow> bool \<Rightarrow> LevenshteinResults" where
  "findDetailedResults left right matrix swapped =
     (case findDetailedResults_loop left right matrix swapped
             (int (length right)) (int (length left)) (0, 0, 0) of
        (addCount, delCount, subCount) \<Rightarrow>
          new_LevenshteinResults (addCount + delCount + subCount) addCount delCount subCount)"

section \<open>LevenshteinDetailedDistance: the forward passes\<close>

text \<open>
  Both compare functions allocate the matrix and fill its first row and first column
  with the same two loops.
\<close>

definition init_matrix :: "nat \<Rightarrow> nat \<Rightarrow> int list list" where
  "init_matrix n m =
     (let matrix = createArray (m + 1) (createArray (n + 1) (0::int));
          matrix = fold (\<lambda>index mat. mat[0 := (mat ! 0)[index := int index]]) [0..<n + 1] matrix;
          matrix = fold (\<lambda>index mat. mat[index := (mat ! index)[0 := int index]]) [0..<m + 1] matrix
      in matrix)"

subsection \<open>unlimitedCompare\<close>

definition unlimited_inner ::
  "'a list \<Rightarrow> 'a list \<Rightarrow> int list \<Rightarrow> nat \<Rightarrow> nat \<Rightarrow> int list \<times> int list list
     \<Rightarrow> int list \<times> int list list" where
  "unlimited_inner left rightJ p j i = (\<lambda>(d, matrix).
     let cost = (if charAt left (int i - 1) = rightJ then 0 else 1);
         d = d[i := min (min (d ! (i - 1) + 1) (p ! i + 1)) (p ! (i - 1) + cost)];
         matrix = matrix[j := (matrix ! j)[i := d ! i]]
     in (d, matrix))"

definition unlimited_outer ::
  "'a list \<Rightarrow> 'a list \<Rightarrow> nat \<Rightarrow> nat \<Rightarrow> int list \<times> int list \<times> int list list
     \<Rightarrow> int list \<times> int list \<times> int list list" where
  "unlimited_outer left right n j = (\<lambda>(p, d, matrix).
     let rightJ = charAt right (int j - 1);
         d = d[0 := int j];
         (d, matrix) = fold (unlimited_inner left rightJ p j) [1..<n + 1] (d, matrix)
     in (d, p, matrix))"

text \<open>
  The forward pass of \<open>unlimitedCompare\<close> on the operands as they are after the swap:
  the state \<open>(p, d, matrix)\<close> when the loop over \<open>j\<close> is left.
\<close>

definition unlimited_pass :: "'a list \<Rightarrow> 'a list \<Rightarrow> int list \<times> int list \<times> int list list" where
  "unlimited_pass left right =
     (let n = length left; m = length right;
          p = createArray (n + 1) (0::int);
          d = createArray (n + 1) (0::int);
          matrix = init_matrix n m;
          p = fold (\<lambda>i p. p[i := int i]) [0..<n + 1] p
      in fold (unlimited_outer left right n) [1..<m + 1] (p, d, matrix))"

definition unlimited_matrix :: "'a list \<Rightarrow> 'a list \<Rightarrow> int list list" where
  "unlimited_matrix left right = snd (snd (unlimited_pass left right))"

definition unlimitedCompare_body :: "'a list \<Rightarrow> 'a list \<Rightarrow> LevenshteinResults" where
  "unlimitedCompare_body left right =
     (let n = length left; m = length right
      in if n = 0 then new_LevenshteinResults (int m) (int m) 0 0
         else if m = 0 then new_LevenshteinResults (int n) 0 (int n) 0
         else if n > m
           then findDetailedResults right left (unlimited_matrix right left) True
           else findDetailedResults left right (unlimited_matrix left right) False)"

definition unlimitedCompare :: "'a js_arg \<Rightarrow> 'a js_arg \<Rightarrow> error + LevenshteinResults" where
  "unlimitedCompare left right =
     (if eq_null left \<or> eq_null right then Inl (Error ''CharSequences must not be null'')
      else Inr (unlimitedCompare_body (str_of left) (str_of right)))"

subsection \<open>limitedCompare\<close>

text \<open>
  \<open>Number.MAX_VALUE\<close> is the largest finite double. Every other number of the forward
  pass is a string length, a loop index or a cell computed from them, where double
  arithmetic is exact; \<open>1 + Number.MAX_VALUE\<close> rounds back to \<open>Number.MAX_VALUE\<close>.
  The threshold is taken as an integer.
\<close>

definition MAX_VALUE :: int where
  "MAX_VALUE = 2 ^ 1024 - 2 ^ 971"

definition one_plus :: "int \<Rightarrow> int" where
  "one_plus x = (if x = MAX_VALUE then MAX_VALUE else 1 + x)"

text \<open>\<open>Array.prototype.fill(value, start, end)\<close> for \<open>0 \<le> start\<close> and \<open>end \<le> length\<close>.\<close>

definition js_fill :: "'a list \<Rightarrow> 'a \<Rightarrow> nat \<Rightarrow> nat \<Rightarrow> 'a list" where
  "js_fill xs v start end = fold (\<lambda>k a. a[k := v]) [start..<end] xs"

definition limited_inner ::
  "'a list \<Rightarrow> 'a list \<Rightarrow> int list \<Rightarrow> nat \<Rightarrow> nat \<Rightarrow> int list \<times> int list list
     \<Rightarrow> int list \<times> int list list" where
  "limited_inner left rightJ p j i = (\<lambda>(d, matrix).
     let d = (if charAt left (int i - 1) = rightJ
              then d[i := p ! (i - 1)]
              else d[i := one_plus (min (min (d ! (i - 1)) (p ! i)) (p ! (i - 1)))]);
         matrix = matrix[j := (matrix ! j)[i := d ! i]]
     in (d, matrix))"

text \<open>
  The loop over \<open>j\<close>; \<open>None\<close> is the \<open>return\<close> from inside the loop when the stripe
  runs off the table, otherwise the state \<open>(p, d, matrix)\<close> after the last iteration.
\<close>

function limited_loop ::
  "'a list \<Rightarrow> 'a list \<Rightarrow> int \<Rightarrow> nat \<Rightarrow> nat \<Rightarrow> nat \<Rightarrow> int list \<times> int list \<times> int list list
     \<Rightarrow> (int list \<times> int list \<times> int list list) option" where
  "limited_loop left right threshold n m j (p, d, matrix) =
     (if j \<le> m then
        let rightJ = charAt right (int j - 1);
            d = d[0 := int j];
            min_i = max 1 (int j - threshold);
            max_i = (if int j > MAX_VALUE - threshold then int n
                     else min (int n) (int j + threshold))
        in if min_i > max_i then None
           else
             let d = (if min_i > 1 then d[nat (min_i - 1) := MAX_VALUE] else d);
                 (d, matrix) = fold (limited_inner left rightJ p j)
                                 [nat min_i..<nat max_i + 1] (d, matrix)
             in limited_loop left right threshold n m (j + 1) (d, p, matrix)
      else Some (p, d, matrix))"
  by pat_completeness auto
termination
  by (relation "measure (\<lambda>(left, right, threshold, n, m, j, st). m + 1 - j)") auto

declare limited_loop.simps [simp del]

text \<open>
  The forward pass of \<open>limitedCompare\<close> on the operands as they are after the swap.
\<close>

definition limited_pass ::
  "'a list \<Rightarrow> 'a list \<Rightarrow> int \<Rightarrow> (int list \<times> int list \<times> int list list) option" where
  "limited_pass left right threshold =
     (let n = length left; m = length right;
          p = createArray (n + 1) (0::int);
          d = createArray (n + 1) (0::int);
          matrix = init_matrix n m;
          boundary = nat (min (int n) threshold) + 1;
          p = fold (\<lambda>i p. p[i := int i]) [0..<boundary] p;
          p = js_fill p MAX_VALUE boundary (length p);
          d = js_fill d MAX_VALUE 0 (length d)
      in limited_loop left right threshold n m 1 (p, d, matrix))"

definition limited_finish ::
  "'a list \<Rightarrow> 'a list \<Rightarrow> int \<Rightarrow> bool \<Rightarrow> LevenshteinResults" where
  "limited_finish left right threshold swapped =
     (case limited_pass left right threshold of
        None \<Rightarrow> new_LevenshteinResults (- 1) 0 0 0
      | Some (p, d, matrix) \<Rightarrow>
          if p ! length left \<le> threshold
          then findDetailedResults left right matrix swapped
          else new_LevenshteinResults (- 1) 0 0 0)"

definition limitedCompare_body :: "'a list \<Rightarrow> 'a list \<Rightarrow> int \<Rightarrow> LevenshteinResults" where
  "limitedCompare_body left right threshold =
     (let n = length left; m = length right
      in if n = 0
         then (if int m \<le> threshold then new_LevenshteinResults (int m) (int m) 0 0
               else new_LevenshteinResults (- 1) 0 0 0)
         else if m = 0
         then (if int n \<le> threshold then new_LevenshteinResults (int n) 0 (int n) 0
               else new_LevenshteinResults (- 1) 0 0 0)
         else if n > m
           then limited_finish right left threshold True
           else limited_finish left right threshold False)"

definition limitedCompare ::
  "'a js_arg \<Rightarrow> 'a js_arg \<Rightarrow> int \<Rightarrow> error + LevenshteinResults" where
  "limitedCompare left right threshold =
     (if eq_null left \<or> eq_null right then Inl (Error ''CharSequences must not be null'')
      else if threshold < 0 then Inl (Error ''Threshold must not be negative'')
      else Inr (limitedCompare_body (str_of left) (str_of right) threshold))"

subsection \<open>Instances and apply\<close>

text \<open>
  The class declares the field \<open>threshold\<close> without an initialiser and has no member
  named \<open>constructor\<close>: the member \<open>LevenshteinDetailedDistance(threshold = null)\<close> is
  an ordinary method, which \<open>new\<close> never calls. An unset field reads \<open>undefined\<close>;
  \<open>None\<close> stands for a threshold that is \<open>undefined\<close> or \<open>null\<close>, the two values the
  test \<open>this.threshold != null\<close> of \<open>apply\<close> does not tell apart. The implicit
  constructor has no parameter, so an argument that a JavaScript caller passes to \<open>new\<close>
  is dropped; \<open>None\<close> is a call of \<open>new\<close> without an argument, as in the static field.
\<close>

record LevenshteinDetailedDistance =
  threshold :: "int option"

definition new_LevenshteinDetailedDistance :: "int option \<Rightarrow> LevenshteinDetailedDistance" where
  "new_LevenshteinDetailedDistance arg = \<lparr>threshold = None\<rparr>"

definition DEFAULT_INSTANCE :: LevenshteinDetailedDistance where
  "DEFAULT_INSTANCE = new_LevenshteinDetailedDistance None"






definition LevenshteinDetailedDistance_apply ::
  "LevenshteinDetailedDistance \<Rightarrow> 'a js_arg \<Rightarrow> 'a js_arg \<Rightarrow> error + LevenshteinResults" where
  "LevenshteinDetailedDistance_apply this left right =
     (if threshold this \<noteq> None then limitedCompare left right (the (threshold this))
      else unlimitedCompare left right)"

section \<open>The Levenshtein distance itself\<close>

text \<open>
  The edit distance of the glossary, the minimum number of single-character inserts,
  deletes and substitutions that turn one sequence into the other, by its usual
  recursion on the two sequences. It is the yardstick for the results of the engine and
  is not taken from the code.
\<close>

fun levenshtein :: "'a list \<Rightarrow> 'a list \<Rightarrow> nat" where
  "levenshtein [] ys = length ys"
| "levenshtein (x # xs) [] = Suc (length xs)"
| "levenshtein (x # xs) (y # ys) =
     min (min (levenshtein xs (y # ys) + 1) (levenshtein (x # xs) ys + 1))
         (levenshtein xs ys + (if x = y then 0 else 1))"

section \<open>JaroWinklerDistance\<close>

text \<open>
  The window radius \<open>max.length / 2 - 1\<close> is a JavaScript division, so it is a
  half-integer when the length is odd, and so is the scan index \<open>xi\<close> that starts at
  \<open>mi - range\<close>. A double holds such halves exactly. \<open>charAt\<close> truncates its argument
  to an integer first.
\<close>

definition to_integer :: "rat \<Rightarrow> int" where
  "to_integer x = (if 0 \<le> x then \<lfloor>x\<rfloor> else \<lceil>x\<rceil>)"

text \<open>
  \<open>matchFlags\<close> is an array of \<open>max.length\<close> times \<open>false\<close>. An assignment
  \<open>matchFlags[xi] = true\<close> sets the element \<open>xi\<close> when \<open>xi\<close> is an index and otherwise
  a property named by the number; a read of a key that was never set is \<open>undefined\<close>,
  here \<open>None\<close>. Only the truth of a read is used.
\<close>

definition createFlags :: "nat \<Rightarrow> (rat \<rightharpoonup> bool)" where
  "createFlags len =
     (\<lambda>k. if 0 \<le> k \<and> k < of_nat len \<and> of_int \<lfloor>k\<rfloor> = k then Some False else None)"

definition truthy :: "bool option \<Rightarrow> bool" where
  "truthy v = (v = Some True)"

text \<open>
  The scan of the window for one character of \<open>min\<close>: the \<open>xi\<close> at which the loop
  breaks, or \<open>None\<close> when it runs to \<open>xn\<close>.
\<close>

function find_match ::
  "'a list \<Rightarrow> 'a list \<Rightarrow> (rat \<rightharpoonup> bool) \<Rightarrow> rat \<Rightarrow> rat \<Rightarrow> rat option" where
  "find_match max_str c1 matchFlags xi xn =
     (if xi < xn then
        (if \<not> truthy (matchFlags xi) \<and> c1 = charAt max_str (to_integer xi) then Some xi
         else find_match max_str c1 matchFlags (xi + 1) xn)
      else None)"
  by pat_completeness auto
termination
proof (relation "measure (\<lambda>(max_str, c1, matchFlags, xi, xn). nat \<lceil>xn - xi\<rceil>)")
  show "wf (measure (\<lambda>(max_str :: 'a list, c1 :: 'a list, matchFlags :: rat \<rightharpoonup> bool, xi :: rat, xn :: rat).
              nat \<lceil>xn - xi\<rceil>))"
    by simp
next
  fix max_str c1 :: "'a list" and matchFlags :: "rat \<rightharpoonup> bool" and xi xn :: rat
  assume "xi < xn"
  then have "0 < \<lceil>xn - xi\<rceil>" by simp
  moreover have "xn - (xi + 1) = (xn - xi) - 1"
    by simp
  then have "\<lceil>xn - (xi + 1)\<rceil> = \<lceil>xn - xi\<rceil> - 1"
    by (simp only: ceiling_diff_one)
  ultimately show "((max_str, c1, matchFlags, xi + 1, xn), (max_str, c1, matchFlags, xi, xn))
      \<in> measure (\<lambda>(max_str, c1, matchFlags, xi, xn). nat \<lceil>xn - xi\<rceil>)"
    by simp
qed

declare find_match.simps [simp del]

definition matching_range :: "'a list \<Rightarrow> rat" where
  "matching_range max_str = max (of_nat (length max_str) / 2 - 1) 0"

definition match_step ::
  "'a list \<Rightarrow> 'a list \<Rightarrow> rat \<Rightarrow> nat \<Rightarrow> rat list \<times> (rat \<rightharpoonup> bool) \<times> nat
     \<Rightarrow> rat list \<times> (rat \<rightharpoonup> bool) \<times> nat" where
  "match_step max_str min_str rng mi = (\<lambda>(matchIndexes, matchFlags, matches).
     let c1 = charAt min_str (int mi)
     in case find_match max_str c1 matchFlags
               (max (of_nat mi - rng) 0)
               (min (of_nat mi + rng + 1) (of_nat (length max_str))) of
          Some xi \<Rightarrow> (matchIndexes[mi := xi], matchFlags(xi \<mapsto> True), matches + 1)
        | None \<Rightarrow> (matchIndexes, matchFlags, matches))"

text \<open>
  An assignment \<open>a[si] = v\<close> with \<open>si\<close> at most the length of the array: at the length
  it appends. Both loops that fill \<open>ms1\<close> and \<open>ms2\<close> count \<open>si\<close> up from 0 by one per
  assignment, so \<open>si\<close> never passes the length. A read past the end is \<open>undefined\<close>.
\<close>

definition js_store :: "'b list \<Rightarrow> nat \<Rightarrow> 'b \<Rightarrow> 'b list" where
  "js_store a si v = (if si < length a then a[si := v] else a @ [v])"

definition js_read :: "'b list \<Rightarrow> nat \<Rightarrow> 'b option" where
  "js_read a k = (if k < length a then Some (a ! k) else None)"

function prefix_loop :: "'a list \<Rightarrow> 'a list \<Rightarrow> nat \<Rightarrow> nat \<Rightarrow> nat \<Rightarrow> nat" where
  "prefix_loop first second bound mi prefix =
     (if mi < bound then
        (if charAt first (int mi) = charAt second (int mi)
         then prefix_loop first second bound (mi + 1) (prefix + 1)
         else prefix)
      else prefix)"
  by pat_completeness auto
termination
  by (relation "measure (\<lambda>(first, second, bound, mi, prefix). bound - mi)") auto

declare prefix_loop.simps [simp del]

text \<open>\<open>matches(first, second)\<close>: matches, half transpositions and prefix.\<close>

definition matches :: "'a list \<Rightarrow> 'a list \<Rightarrow> nat \<times> nat \<times> nat" where
  "matches first second =
     (let (max_str, min_str) =
            (if length first > length second then (first, second) else (second, first));
          rng = matching_range max_str;
          matchIndexes = createArray (length min_str) (- 1 :: rat);
          matchFlags = createFlags (length max_str);
          (matchIndexes, matchFlags, matches) =
            fold (match_step max_str min_str rng) [0..<length min_str]
              (matchIndexes, matchFlags, 0);
          ms1 = createArray matches [];
          ms2 = createArray matches [];
          (ms1, si1) =
            fold (\<lambda>i (ms1, si). if matchIndexes ! i \<noteq> - 1
                                 then (js_store ms1 si (charAt min_str (int i)), si + 1)
                                 else (ms1, si))
              [0..<length min_str] (ms1, 0::nat);
          (ms2, si2) =
            fold (\<lambda>i (ms2, si). if truthy (matchFlags (of_nat i))
                                 then (js_store ms2 si (charAt max_str (int i)), si + 1)
                                 else (ms2, si))
              [0..<length max_str] (ms2, 0::nat);
          halfTranspositions =
            fold (\<lambda>mi h. if js_read ms1 mi \<noteq> js_read ms2 mi then h + 1 else h)
              [0..<length ms1] (0::nat);
          prefix = prefix_loop first second (min 4 (length min_str)) 0 0
      in (matches, halfTranspositions, prefix))"

text \<open>
  \<open>apply(left, right)\<close> of JaroWinklerDistance. The score is computed in doubles: the
  literals \<open>0.1\<close> and \<open>0.7\<close> are the doubles nearest to them, and each operation rounds,
  in the order in which the expression is evaluated. The divisors are not 0 where the
  score is computed, since there is a match.
\<close>

definition jaro_winkler_score :: "'a list \<Rightarrow> 'a list \<Rightarrow> rat" where
  "jaro_winkler_score left right =
     (let defaultScalingFactor = double (1 / 10);
          mtp = matches left right;
          m = js_number (fst mtp)
      in if m = 0 then 0
         else
           let j = fl_div
                     (fl_add
                        (fl_add (fl_div m (js_number (length left)))
                                (fl_div m (js_number (length right))))
                        (fl_div (fl_sub m (fl_div (js_number (fst (snd mtp))) 2)) m))
                     3;
               jw = (if j < double (7 / 10) then j
                     else fl_add j
                            (fl_mul (fl_mul defaultScalingFactor (js_number (snd (snd mtp))))
                                    (fl_sub 1 j)))
           in jw)"

definition JaroWinklerDistance_apply :: "'a js_arg \<Rightarrow> 'a js_arg \<Rightarrow> error + rat" where
  "JaroWinklerDistance_apply left right =
     (if eq_null left \<or> eq_null right then Inl (Error ''CharSequences must not be null'')
      else Inr (jaro_winkler_score (str_of left) (str_of right)))"

section \<open>The peer metrics on sequences\<close>

subsection \<open>HammingDistance\<close>

definition HammingDistance_apply :: "'a js_arg \<Rightarrow> 'a js_arg \<Rightarrow> error + int" where
  "HammingDistance_apply left right =
     (if eq_null left \<or> eq_null right then Inl (Error ''CharSequences must not be null'')
      else
        let l = str_of left; r = str_of right
        in if length l \<noteq> length r
           then Inl (Error ''CharSequences must have the same length'')
           else Inr (fold (\<lambda>i dst. if charAt l (int i) \<noteq> charAt r (int i) then dst + 1 else dst)
                       [0..<length l] 0))"

subsection \<open>JaccardSimilarity and JaccardDistance\<close>

text \<open>
  A \<open>Set\<close> of one-character strings in insertion order; \<open>Math.round\<close> rounds a half
  upwards. The products and quotients are those of doubles.
\<close>

definition set_add :: "'b list \<Rightarrow> 'b \<Rightarrow> 'b list" where
  "set_add s v = (if v \<in> set s then s else s @ [v])"

definition js_round :: "rat \<Rightarrow> int" where
  "js_round x = \<lfloor>x + 1 / 2\<rfloor>"

definition calculateJaccardSimilarity :: "'a list \<Rightarrow> 'a list \<Rightarrow> rat" where
  "calculateJaccardSimilarity left right =
     (let leftLength = length left; rightLength = length right
      in if leftLength = 0 \<or> rightLength = 0 then 0
         else
           let leftSet = fold (\<lambda>i s. set_add s (charAt left (int i))) [0..<leftLength] [];
               rightSet = fold (\<lambda>i s. set_add s (charAt right (int i))) [0..<rightLength] [];
               unionSet = fold (\<lambda>v s. set_add s v) rightSet leftSet;
               intersectionSize = int (length leftSet) + int (length rightSet) - int (length unionSet)
           in fl_div (fl_mul 1 (double (of_int intersectionSize))) (js_number (length unionSet)))"

definition JaccardSimilarity_apply :: "'a js_arg \<Rightarrow> 'a js_arg \<Rightarrow> error + rat" where
  "JaccardSimilarity_apply left right =
     (if eq_null left \<or> eq_null right then Inl (Error ''Input cannot be null'')
      else Inr (fl_div
                  (of_int (js_round
                     (fl_mul (calculateJaccardSimilarity (str_of left) (str_of right)) 100)))
                  100))"

definition JaccardDistance_apply :: "'a js_arg \<Rightarrow> 'a js_arg \<Rightarrow> error + rat" where
  "JaccardDistance_apply left right =
     (if eq_null left \<or> eq_null right then Inl (Error ''Input cannot be null'')
      else
        (case JaccardSimilarity_apply left right of
           Inl e \<Rightarrow> Inl e
         | Inr similarity \<Rightarrow>
             Inr (fl_div (of_int (js_round (fl_mul (fl_sub 1 similarity) 100))) 100)))"

subsection \<open>fuzzyScore\<close>

text \<open>
  \<open>toLowerCase\<close> is a parameter. The index of the previous match starts at
  \<open>Number.MIN_VALUE\<close>, the smallest positive double, here \<open>None\<close>; adding 1 to it
  gives 1 in doubles.
\<close>

definition previous_plus_one :: "int option \<Rightarrow> int" where
  "previous_plus_one previousMatchingCharacterIndex =
     (case previousMatchingCharacterIndex of None \<Rightarrow> 1 | Some k \<Rightarrow> k + 1)"

function fuzzy_inner ::
  "'a list \<Rightarrow> 'a list \<Rightarrow> nat \<Rightarrow> bool \<Rightarrow> int \<Rightarrow> int option \<Rightarrow> nat \<times> int \<times> int option" where
  "fuzzy_inner termLowerCase queryChar termIndex termCharacterMatchFound score previous =
     (if termIndex < length termLowerCase \<and> \<not> termCharacterMatchFound then
        (let termChar = charAt termLowerCase (int termIndex)
         in if queryChar = termChar
            then
              (let score = score + 1;
                   score = (if previous_plus_one previous = int termIndex then score + 2 else score)
               in fuzzy_inner termLowerCase queryChar (termIndex + 1) True score
                    (Some (int termIndex)))
            else fuzzy_inner termLowerCase queryChar (termIndex + 1) termCharacterMatchFound
                   score previous)
      else (termIndex, score, previous))"
  by pat_completeness auto
termination
  by (relation "measure (\<lambda>(termLowerCase, queryChar, termIndex, found, score, previous).
        length termLowerCase - termIndex)") auto

declare fuzzy_inner.simps [simp del]

definition fuzzyScore ::
  "('a list \<Rightarrow> 'a list) \<Rightarrow> 'a js_arg \<Rightarrow> 'a js_arg \<Rightarrow> error + int" where
  "fuzzyScore toLowerCase term query =
     (if eq_null term \<or> eq_null query
      then Inl (Error ''provided parameters must not be null'')
      else
        let termLowerCase = toLowerCase (str_of term);
            queryLowerCase = toLowerCase (str_of query);
            (termIndex, score, previous) =
              fold (\<lambda>queryIndex (termIndex, score, previous).
                      fuzzy_inner termLowerCase (charAt queryLowerCase (int queryIndex))
                        termIndex False score previous)
                [0..<length queryLowerCase] (0, 0, None)
        in Inr score)"

section \<open>Notions used in the proofs\<close>

text \<open>
  The branch that one iteration of the loop of \<open>findDetailedResults\<close> takes, with the
  tests of the loop body in their order: the \<open>break\<close>, the equal characters, the move to
  the left neighbour, the move to the top neighbour, the substitution.
\<close>

datatype move = Stop | Match | MoveLeft | MoveTop | Substitute

definition next_move :: "'a list \<Rightarrow> 'a list \<Rightarrow> int list list \<Rightarrow> int \<Rightarrow> int \<Rightarrow> move" where
  "next_move left right matrix rowIndex columnIndex =
     (let dataAtLeft = (if columnIndex = 0 then - 1
                        else matrix ! nat rowIndex ! nat (columnIndex - 1));
          dataAtTop = (if rowIndex = 0 then - 1
                       else matrix ! nat (rowIndex - 1) ! nat columnIndex);
          dataAtDiagonal = (if rowIndex > 0 \<and> columnIndex > 0
                            then matrix ! nat (rowIndex - 1) ! nat (columnIndex - 1)
                            else - 1);
          data = matrix ! nat rowIndex ! nat columnIndex
      in if dataAtLeft = - 1 \<and> dataAtTop = - 1 \<and> dataAtDiagonal = - 1 then Stop
         else if columnIndex > 0 \<and> rowIndex > 0
                 \<and> charAt left (columnIndex - 1) = charAt right (rowIndex - 1) then Match
         else if (data - 1 = dataAtLeft \<and> (data \<le> dataAtDiagonal \<and> data \<le> dataAtTop))
                 \<or> (dataAtDiagonal = - 1 \<and> dataAtTop = - 1) then MoveLeft
         else if (data - 1 = dataAtTop \<and> (data \<le> dataAtDiagonal \<and> data \<le> dataAtLeft))
                 \<or> (dataAtDiagonal = - 1 \<and> dataAtLeft = - 1) then MoveTop
         else Substitute)"

text \<open>No cell up to the given row and column holds the value \<open>-1\<close> of a missing neighbour.\<close>

definition no_sentinel :: "int list list \<Rightarrow> int \<Rightarrow> int \<Rightarrow> bool" where
  "no_sentinel matrix rowIndex columnIndex \<longleftrightarrow>
     (\<forall>r c. 0 \<le> r \<and> r \<le> rowIndex \<and> 0 \<le> c \<and> c \<le> columnIndex
        \<longrightarrow> matrix ! nat r ! nat c \<noteq> - 1)"

text \<open>
  A row of \<open>n + 1\<close> cells, none negative, and a matrix of \<open>m + 1\<close> such rows.
\<close>

definition row_ok :: "nat \<Rightarrow> int list \<Rightarrow> bool" where
  "row_ok n p \<longleftrightarrow> length p = n + 1 \<and> (\<forall>x\<in>set p. 0 \<le> x)"

definition cells_ok :: "nat \<Rightarrow> nat \<Rightarrow> int list list \<Rightarrow> bool" where
  "cells_ok n m matrix \<longleftrightarrow> length matrix = m + 1 \<and> (\<forall>row\<in>set matrix. row_ok n row)"

text \<open>
  \<open>edit_script xs ys i d s\<close>: \<open>xs\<close> is turned into \<open>ys\<close> by \<open>i\<close> inserts, \<open>d\<close> deletes
  and \<open>s\<close> substitutions of one element by a different one, the other elements kept.
\<close>

inductive edit_script :: "'a list \<Rightarrow> 'a list \<Rightarrow> int \<Rightarrow> int \<Rightarrow> int \<Rightarrow> bool" where
  finished: "edit_script [] [] 0 0 0"
| keep: "edit_script xs ys i d s \<Longrightarrow> edit_script (xs @ [x]) (ys @ [x]) i d s"
| substitute: "edit_script xs ys i d s \<Longrightarrow> x \<noteq> y \<Longrightarrow> edit_script (xs @ [x]) (ys @ [y]) i d (s + 1)"
| delete: "edit_script xs ys i d s \<Longrightarrow> edit_script (xs @ [x]) ys i (d + 1) s"
| insert: "edit_script xs ys i d s \<Longrightarrow> edit_script xs (ys @ [y]) (i + 1) d s"

text \<open>
  The move of the backtrace on the transposed matrix, and the counters and the result
  with inserts and deletes exchanged.
\<close>

fun mirror :: "move \<Rightarrow> move" where
  "mirror MoveLeft = MoveTop"
| "mirror MoveTop = MoveLeft"
| "mirror Stop = Stop"
| "mirror Match = Match"
| "mirror Substitute = Substitute"

fun flip :: "int \<times> int \<times> int \<Rightarrow> int \<times> int \<times> int" where
  "flip (addCount, delCount, subCount) = (delCount, addCount, subCount)"

definition flip_result :: "LevenshteinResults \<Rightarrow> LevenshteinResults" where
  "flip_result res =
     \<lparr>distance = distance res, insertCount = deleteCount res,
      deleteCount = insertCount res, substituteCount = substituteCount res\<rparr>"

text \<open>The second matrix is the transpose of the first up to the given row and column.\<close>

definition transposed :: "int list list \<Rightarrow> int list list \<Rightarrow> int \<Rightarrow> int \<Rightarrow> bool" where
  "transposed matrix matrix' rowIndex columnIndex \<longleftrightarrow>
     (\<forall>r c. 0 \<le> r \<and> r \<le> rowIndex \<and> 0 \<le> c \<and> c \<le> columnIndex
        \<longrightarrow> matrix' ! nat c ! nat r = matrix ! nat r ! nat c)"

text \<open>
  The recurrence of the forward pass of \<open>unlimitedCompare\<close> as a function of the column
  \<open>i\<close> and the row \<open>j\<close>; a row that agrees with it in its first \<open>k\<close> cells; a matrix
  that agrees with it in the rows before \<open>j\<close>, the first \<open>k\<close> cells of row \<open>j\<close> and the
  first column.
\<close>

fun lev_cell :: "'a list \<Rightarrow> 'a list \<Rightarrow> nat \<Rightarrow> nat \<Rightarrow> int" where
  "lev_cell left right 0 j = int j"
| "lev_cell left right (Suc i) 0 = int (Suc i)"
| "lev_cell left right (Suc i) (Suc j) =
     min (min (lev_cell left right i (Suc j) + 1) (lev_cell left right (Suc i) j + 1))
         (lev_cell left right i j
            + (if charAt left (int i) = charAt right (int j) then 0 else 1))"

definition is_row :: "'a list \<Rightarrow> 'a list \<Rightarrow> nat \<Rightarrow> nat \<Rightarrow> int list \<Rightarrow> bool" where
  "is_row left right j k p \<longleftrightarrow>
     length p = length left + 1 \<and> (\<forall>i<k. p ! i = lev_cell left right i j)"

definition filled :: "'a list \<Rightarrow> 'a list \<Rightarrow> nat \<Rightarrow> nat \<Rightarrow> int list list \<Rightarrow> bool" where
  "filled left right j k matrix \<longleftrightarrow>
     length matrix = length right + 1
     \<and> (\<forall>r\<le>length right. length (matrix ! r) = length left + 1)
     \<and> (\<forall>r\<le>length right. \<forall>c\<le>length left.
           (r < j \<or> (r = j \<and> c < k) \<or> c = 0) \<longrightarrow> matrix ! r ! c = lev_cell left right c r)"

section \<open>Properties\<close>

subsection \<open>Rounding to a double\<close>

lemma round_even_unfold:
  obtains n :: int where "of_int n \<le> y" "y < of_int n + 1" "\<lfloor>y\<rfloor> = n"
    "round_even y = (if y - of_int n < 1 / 2 then n
                     else if 1 / 2 < y - of_int n then n + 1
                     else if even n then n else n + 1)"
proof -
  have "of_int \<lfloor>y\<rfloor> \<le> y" "y < of_int \<lfloor>y\<rfloor> + 1"
    by linarith+
  moreover have "round_even y = (if y - of_int \<lfloor>y\<rfloor> < 1 / 2 then \<lfloor>y\<rfloor>
                     else if 1 / 2 < y - of_int \<lfloor>y\<rfloor> then \<lfloor>y\<rfloor> + 1
                     else if even \<lfloor>y\<rfloor> then \<lfloor>y\<rfloor> else \<lfloor>y\<rfloor> + 1)"
    unfolding round_even_def Let_def ..
  ultimately show ?thesis
    using that by blast
qed

lemma round_even_upper: "of_int (round_even y) \<le> y + 1 / 2"
proof -
  obtain n :: int where "of_int n \<le> y" "y < of_int n + 1"
    and r: "round_even y = (if y - of_int n < 1 / 2 then n
                     else if 1 / 2 < y - of_int n then n + 1
                     else if even n then n else n + 1)"
    by (rule round_even_unfold)
  then show ?thesis
    unfolding r by (simp split: if_splits)
qed

lemma round_even_lower: "y - 1 / 2 \<le> of_int (round_even y)"
proof -
  obtain n :: int where "of_int n \<le> y" "y < of_int n + 1"
    and r: "round_even y = (if y - of_int n < 1 / 2 then n
                     else if 1 / 2 < y - of_int n then n + 1
                     else if even n then n else n + 1)"
    by (rule round_even_unfold)
  then show ?thesis
    unfolding r by (simp split: if_splits)
qed

lemma round_even_of_int: "round_even (of_int n) = n"
  by (simp add: round_even_def)

lemma round_even_floor: "\<lfloor>y\<rfloor> \<le> round_even y" "round_even y \<le> \<lfloor>y\<rfloor> + 1"
  by (simp_all add: round_even_def Let_def)

lemma round_even_mono:
  assumes "x \<le> y"
  shows "round_even x \<le> round_even y"
proof (cases "\<lfloor>x\<rfloor> = \<lfloor>y\<rfloor>")
  case True
  obtain n :: int where n: "\<lfloor>x\<rfloor> = n"
    and rx: "round_even x = (if x - of_int n < 1 / 2 then n
                     else if 1 / 2 < x - of_int n then n + 1
                     else if even n then n else n + 1)"
    by (rule round_even_unfold)
  obtain k :: int where k: "\<lfloor>y\<rfloor> = k"
    and ry: "round_even y = (if y - of_int k < 1 / 2 then k
                     else if 1 / 2 < y - of_int k then k + 1
                     else if even k then k else k + 1)"
    by (rule round_even_unfold)
  have "k = n"
    using True n k by simp
  then show ?thesis
    unfolding rx ry using assms by (simp split: if_splits)
next
  case False
  then have "\<lfloor>x\<rfloor> + 1 \<le> \<lfloor>y\<rfloor>"
    using floor_mono [OF assms] by linarith
  then show ?thesis
    using round_even_floor(2) [of x] round_even_floor(1) [of y] by linarith
qed

lemma norm_round_nonpos: "x \<le> 0 \<Longrightarrow> norm_round x = 0"
  by (subst norm_round.simps) simp

lemma norm_round_big: "2 ^ 53 \<le> x \<Longrightarrow> norm_round x = 2 * norm_round (x / 2)"
proof -
  assume big: "2 ^ 53 \<le> x"
  have "(0::rat) < 2 ^ 53"
    by simp
  then have "\<not> x \<le> 0"
    using big by linarith
  then show ?thesis
    using big by (subst norm_round.simps) (simp only: if_True if_False)
qed

lemma norm_round_small:
  "0 < x \<Longrightarrow> x < 2 ^ 52 \<Longrightarrow> norm_round x = norm_round (2 * x) / 2"
proof -
  assume pos: "0 < x" and small: "x < 2 ^ 52"
  have "(2::rat) ^ 52 \<le> 2 ^ 53"
    by simp
  then have "\<not> 2 ^ 53 \<le> x" "\<not> x \<le> 0"
    using pos small by linarith+
  then show ?thesis
    using small by (subst norm_round.simps) (simp only: if_True if_False)
qed

lemma norm_round_base:
  "2 ^ 52 \<le> x \<Longrightarrow> x < 2 ^ 53 \<Longrightarrow> norm_round x = of_int (round_even x)"
proof -
  assume lo: "2 ^ 52 \<le> x" and hi: "x < 2 ^ 53"
  have "(0::rat) < 2 ^ 52"
    by simp
  then have "\<not> x \<le> 0" "\<not> 2 ^ 53 \<le> x" "\<not> x < 2 ^ 52"
    using lo hi by linarith+
  then show ?thesis
    by (subst norm_round.simps) (simp only: if_True if_False)
qed

lemma norm_round_twice: "0 < x \<Longrightarrow> norm_round (2 * x) = 2 * norm_round x"
proof (cases "x < 2 ^ 52")
  case True
  assume "0 < x"
  then show ?thesis
    using norm_round_small [OF _ True] by simp
next
  case False
  then have "(2::rat) ^ 53 \<le> 2 * x"
    by simp
  then show ?thesis
    using norm_round_big [of "2 * x"] by simp
qed

lemma norm_round_half: "0 < x \<Longrightarrow> norm_round (x / 2) = norm_round x / 2"
  using norm_round_twice [of "x / 2"] by simp


lemma norm_round_ge:
  "2 ^ 52 \<le> x \<Longrightarrow> 2 ^ 52 \<le> norm_round x"
proof (induction x rule: norm_round.induct)
  case (1 x)
  show ?case
  proof (cases "2 ^ 53 \<le> x")
    case True
    then have "2 ^ 52 \<le> x / 2" "\<not> x \<le> 0"
      by simp_all
    then have "2 ^ 52 \<le> norm_round (x / 2)"
      using "1.IH"(1) True by simp
    then show ?thesis
      unfolding norm_round_big [OF True] by simp
  next
    case False
    then have hi: "x < 2 ^ 53"
      by simp
    have "round_even (of_int (2 ^ 52)) \<le> round_even x"
      using "1.prems" by (intro round_even_mono) simp
    then have "(2::int) ^ 52 \<le> round_even x"
      by (simp only: round_even_of_int)
    then have "rat_of_int (2 ^ 52) \<le> rat_of_int (round_even x)"
      by (simp only: of_int_le_iff)
    then show ?thesis
      unfolding norm_round_base [OF "1.prems" hi] by simp
  qed
qed

lemma norm_round_le:
  "x \<le> 2 ^ 52 \<Longrightarrow> norm_round x \<le> 2 ^ 52"
proof (induction x rule: norm_round.induct)
  case (1 x)
  consider (neg) "x \<le> 0" | (small) "0 < x" "x < 2 ^ 52" | (top) "x = 2 ^ 52"
    using "1.prems" by linarith
  then show ?case
  proof cases
    case neg
    then show ?thesis
      by (simp add: norm_round_nonpos)
  next
    case top
    have "norm_round (2 ^ 52) = of_int (round_even (of_int (2 ^ 52)))"
      using norm_round_base [of "2 ^ 52"] by simp
    then show ?thesis
      unfolding top by (simp only: round_even_of_int) simp
  next
    case small
    have not_big: "\<not> 2 ^ 53 \<le> x" "\<not> x \<le> 0"
      using small by simp_all
    have "norm_round (2 * x) \<le> 2 ^ 53"
    proof (cases "2 * x \<le> 2 ^ 52")
      case True
      then have "norm_round (2 * x) \<le> 2 ^ 52"
        using "1.IH"(2) not_big small by simp
      then show ?thesis
        by simp
    next
      case False
      then have lo: "2 ^ 52 \<le> 2 * x" and hi: "2 * x < 2 ^ 53"
        using small by simp_all
      have "round_even (2 * x) \<le> round_even (of_int (2 ^ 53))"
        using hi by (intro round_even_mono) simp
      then have "round_even (2 * x) \<le> 2 ^ 53"
        by (simp only: round_even_of_int)
      then have "rat_of_int (round_even (2 * x)) \<le> rat_of_int (2 ^ 53)"
        by (simp only: of_int_le_iff)
      then show ?thesis
        unfolding norm_round_base [OF lo hi] by simp
    qed
    then show ?thesis
      unfolding norm_round_small [OF small] by simp
  qed
qed

lemma norm_round_pos: "0 < x \<Longrightarrow> 0 < norm_round x"
proof (induction x rule: norm_round.induct)
  case (1 x)
  show ?case
  proof (cases "x < 2 ^ 52")
    case True
    have "\<not> 2 ^ 53 \<le> x" "\<not> x \<le> 0"
      using True "1.prems" by simp_all
    then have "0 < norm_round (2 * x)"
      using "1.IH"(2) True "1.prems" by simp
    then show ?thesis
      unfolding norm_round_small [OF "1.prems" True] by simp
  next
    case False
    then have "2 ^ 52 \<le> norm_round x"
      by (intro norm_round_ge) simp
    moreover have "(0::rat) < 2 ^ 52"
      by simp
    ultimately show ?thesis
      by linarith
  qed
qed

lemma norm_round_mono:
  "0 < x \<Longrightarrow> x \<le> y \<Longrightarrow> norm_round x \<le> norm_round y"
proof (induction y arbitrary: x rule: norm_round.induct)
  case (1 y)
  have ypos: "0 < y"
    using "1.prems" by linarith
  consider (big) "2 ^ 53 \<le> y" | (small) "y < 2 ^ 52" | (base) "2 ^ 52 \<le> y" "y < 2 ^ 53"
    by linarith
  then show ?case
  proof cases
    case big
    have "norm_round (x / 2) \<le> norm_round (y / 2)"
      using "1.IH"(1) [of "x / 2"] big ypos "1.prems" by simp
    then show ?thesis
      unfolding norm_round_big [OF big] using norm_round_half [OF "1.prems"(1)] by simp
  next
    case small
    have "\<not> 2 ^ 53 \<le> y" "\<not> y \<le> 0"
      using small ypos by simp_all
    then have "norm_round (2 * x) \<le> norm_round (2 * y)"
      using "1.IH"(2) [of "2 * x"] small "1.prems" by simp
    then show ?thesis
      unfolding norm_round_small [OF ypos small]
      using norm_round_twice [OF "1.prems"(1)] by simp
  next
    case base
    show ?thesis
    proof (cases "x < 2 ^ 52")
      case True
      then have "norm_round x \<le> 2 ^ 52"
        by (intro norm_round_le) simp
      moreover have "2 ^ 52 \<le> norm_round y"
        using base(1) by (rule norm_round_ge)
      ultimately show ?thesis
        by linarith
    next
      case False
      then have lo: "2 ^ 52 \<le> x" and hi: "x < 2 ^ 53"
        using "1.prems"(2) base(2) by simp_all
      have "round_even x \<le> round_even y"
        using "1.prems"(2) by (rule round_even_mono)
      then have "rat_of_int (round_even x) \<le> rat_of_int (round_even y)"
        by (simp only: of_int_le_iff)
      then show ?thesis
        unfolding norm_round_base [OF lo hi] norm_round_base [OF base] .
    qed
  qed
qed

lemma norm_round_idem: "norm_round (norm_round x) = norm_round x"
proof (induction x rule: norm_round.induct)
  case (1 x)
  consider (neg) "x \<le> 0" | (big) "2 ^ 53 \<le> x" | (small) "0 < x" "x < 2 ^ 52"
    | (base) "2 ^ 52 \<le> x" "x < 2 ^ 53"
    by linarith
  then show ?case
  proof cases
    case neg
    then show ?thesis
      by (simp add: norm_round_nonpos)
  next
    case big
    then have pos: "0 < x / 2" and nn: "\<not> x \<le> 0"
      by simp_all
    have "norm_round (norm_round (x / 2)) = norm_round (x / 2)"
      using "1.IH"(1) nn big by simp
    then show ?thesis
      unfolding norm_round_big [OF big]
      using norm_round_twice [OF norm_round_pos [OF pos]] by simp
  next
    case small
    have "\<not> 2 ^ 53 \<le> x" "\<not> x \<le> 0"
      using small by simp_all
    then have "norm_round (norm_round (2 * x)) = norm_round (2 * x)"
      using "1.IH"(2) small by simp
    moreover have "0 < norm_round (2 * x)"
      using small(1) by (intro norm_round_pos) simp
    ultimately show ?thesis
      unfolding norm_round_small [OF small]
      using norm_round_half [of "norm_round (2 * x)"] by simp
  next
    case base
    define r where "r = round_even x"
    have eq: "norm_round x = of_int r"
      unfolding r_def by (rule norm_round_base [OF base])
    have "round_even (of_int (2 ^ 52)) \<le> round_even x"
      using base(1) by (intro round_even_mono) simp
    then have lo: "2 ^ 52 \<le> r"
      unfolding r_def by (simp only: round_even_of_int)
    have "round_even x \<le> round_even (of_int (2 ^ 53))"
      using base(2) by (intro round_even_mono) simp
    then have hi: "r \<le> 2 ^ 53"
      unfolding r_def by (simp only: round_even_of_int)
    have lo': "(2::rat) ^ 52 \<le> of_int r"
      using lo by (metis of_int_le_iff of_int_numeral of_int_power)
    show ?thesis
    proof (cases "r = 2 ^ 53")
      case True
      have "norm_round (2 ^ 53) = 2 * norm_round (2 ^ 52)"
        using norm_round_big [of "2 ^ 53"] by simp
      also have "norm_round (2 ^ 52) = of_int (round_even (of_int (2 ^ 52)))"
        using norm_round_base [of "2 ^ 52"] by simp
      finally have "norm_round (2 ^ 53) = 2 ^ 53"
        by (simp only: round_even_of_int) simp
      then show ?thesis
        unfolding eq True by simp
    next
      case False
      then have "r < 2 ^ 53"
        using hi by simp
      then have hi': "rat_of_int r < 2 ^ 53"
        by (metis of_int_less_iff of_int_numeral of_int_power)
      show ?thesis
        unfolding eq norm_round_base [OF lo' hi'] by (simp only: round_even_of_int)
    qed
  qed
qed

lemma norm_round_upper: "0 \<le> x \<Longrightarrow> norm_round x \<le> x * (1 + 1 / 2 ^ 53)"
proof (induction x rule: norm_round.induct)
  case (1 x)
  consider (zero) "x = 0" | (big) "2 ^ 53 \<le> x" | (small) "0 < x" "x < 2 ^ 52"
    | (base) "2 ^ 52 \<le> x" "x < 2 ^ 53"
    using "1.prems" by linarith
  then show ?case
  proof cases
    case zero
    then show ?thesis
      by (simp add: norm_round_nonpos)
  next
    case big
    then have "\<not> x \<le> 0" "0 \<le> x / 2"
      by simp_all
    then have "norm_round (x / 2) \<le> x / 2 * (1 + 1 / 2 ^ 53)"
      using "1.IH"(1) big by simp
    then show ?thesis
      unfolding norm_round_big [OF big] by simp
  next
    case small
    have "\<not> 2 ^ 53 \<le> x" "\<not> x \<le> 0"
      using small by simp_all
    then have "norm_round (2 * x) \<le> 2 * x * (1 + 1 / 2 ^ 53)"
      using "1.IH"(2) small by simp
    then show ?thesis
      unfolding norm_round_small [OF small] by simp
  next
    case base
    have "of_int (round_even x) \<le> x + 1 / 2"
      by (rule round_even_upper)
    moreover have "1 / 2 \<le> x * (1 / 2 ^ 53)"
      using base(1) by simp
    ultimately show ?thesis
      unfolding norm_round_base [OF base] by (simp add: distrib_left)
  qed
qed

lemma norm_round_of_int:
  "x = of_int k \<Longrightarrow> 0 \<le> k \<Longrightarrow> k \<le> 2 ^ 53 \<Longrightarrow> norm_round x = x"
proof (induction x arbitrary: k rule: norm_round.induct)
  case (1 x)
  have le: "x \<le> 2 ^ 53"
    using "1.prems" by (metis of_int_le_iff of_int_numeral of_int_power)
  consider (zero) "x \<le> 0" | (top) "x = 2 ^ 53" | (small) "0 < x" "x < 2 ^ 52"
    | (base) "2 ^ 52 \<le> x" "x < 2 ^ 53"
    using le by linarith
  then show ?case
  proof cases
    case zero
    then have "x = 0"
      using "1.prems" by simp
    then show ?thesis
      by (simp add: norm_round_nonpos)
  next
    case top
    have "norm_round (2 ^ 53) = 2 * norm_round (2 ^ 52)"
      using norm_round_big [of "2 ^ 53"] by simp
    also have "norm_round (2 ^ 52) = of_int (round_even (of_int (2 ^ 52)))"
      using norm_round_base [of "2 ^ 52"] by simp
    finally have "norm_round (2 ^ 53) = 2 ^ 53"
      by (simp only: round_even_of_int) simp
    then show ?thesis
      unfolding top .
  next
    case small
    have not_big: "\<not> x \<le> 0" "\<not> 2 ^ 53 \<le> x"
      using small by simp_all
    have "rat_of_int k < rat_of_int (2 ^ 52)"
      using small(2) "1.prems"(1) by simp
    then have "k < 2 ^ 52"
      by (simp only: of_int_less_iff)
    then have "2 * k \<le> 2 ^ 53" "0 \<le> 2 * k"
      using "1.prems"(2) by simp_all
    moreover have "2 * x = of_int (2 * k)"
      using "1.prems"(1) by simp
    ultimately have "norm_round (2 * x) = 2 * x"
      using "1.IH"(2) [OF not_big small(2)] by blast
    then show ?thesis
      unfolding norm_round_small [OF small] by simp
  next
    case base
    have "norm_round x = of_int (round_even x)"
      using base by (rule norm_round_base)
    then show ?thesis
      by (simp add: "1.prems"(1) round_even_of_int)
  qed
qed

lemma double_zero: "double 0 = 0"
  by (simp add: double_def norm_round_nonpos)

lemma double_pos: "0 < x \<Longrightarrow> 0 < double x"
  by (simp add: double_def norm_round_pos)

lemma double_nonneg: "0 \<le> x \<Longrightarrow> 0 \<le> double x"
  using double_pos [of x] double_zero by (cases "x = 0") simp_all

lemma double_mono: "0 \<le> x \<Longrightarrow> x \<le> y \<Longrightarrow> double x \<le> double y"
proof (cases "x = 0")
  case True
  assume "0 \<le> x" "x \<le> y"
  then show ?thesis
    using True double_nonneg [of y] by (simp add: double_zero)
next
  case False
  assume "0 \<le> x" "x \<le> y"
  then show ?thesis
    using False norm_round_mono [of x y] by (simp add: double_def)
qed

lemma double_idem: "double (double x) = double x"
proof (cases "x < 0")
  case True
  then have "0 < norm_round (- x)"
    by (intro norm_round_pos) simp
  then show ?thesis
    using True by (simp add: double_def norm_round_idem)
next
  case False
  then have "0 \<le> norm_round x"
    using norm_round_pos [of x] by (cases "x = 0") (simp_all add: norm_round_nonpos)
  then show ?thesis
    using False by (simp add: double_def norm_round_idem)
qed

lemma double_upper: "0 \<le> x \<Longrightarrow> double x \<le> x * (1 + 1 / 2 ^ 53)"
  using norm_round_upper [of x] by (simp add: double_def)

lemma double_unit: "0 \<le> x \<Longrightarrow> x \<le> 1 \<Longrightarrow> 0 \<le> double x \<and> double x \<le> 1"
proof -
  assume x: "0 \<le> x" "x \<le> 1"
  have "double 1 = 1"
    using norm_round_of_int [of 1 1] by (simp add: double_def)
  then show ?thesis
    using double_nonneg [OF x(1)] double_mono [OF x] by simp
qed

lemma double_of_nat: "n \<le> 2 ^ 53 \<Longrightarrow> double (of_nat n) = of_nat n"
proof -
  assume "n \<le> 2 ^ 53"
  then have "int n \<le> 2 ^ 53"
    by (metis of_nat_le_iff of_nat_numeral of_nat_power)
  then have "norm_round (of_int (int n)) = of_int (int n)"
    using norm_round_of_int [of "of_int (int n)" "int n"] by simp
  then show ?thesis
    by (simp add: double_def)
qed

lemma js_number_small: "n \<le> 2 ^ 53 \<Longrightarrow> js_number n = of_nat n"
  by (simp add: js_number_def double_of_nat)

lemma js_number_mono: "a \<le> b \<Longrightarrow> js_number a \<le> js_number b"
  unfolding js_number_def by (intro double_mono) simp_all

lemma js_number_idem: "double (js_number n) = js_number n"
  by (simp add: js_number_def double_idem)

lemma round_even_near:
  assumes "\<bar>y - of_int n\<bar> < 1 / 2"
  shows "round_even y = n"
proof -
  have "of_int (round_even y) \<le> y + 1 / 2" "y - 1 / 2 \<le> of_int (round_even y)"
    by (rule round_even_upper, rule round_even_lower)
  then have "rat_of_int (round_even y) < of_int n + 1" "rat_of_int n - 1 < of_int (round_even y)"
    using assms by linarith+
  then have "rat_of_int (round_even y) < of_int (n + 1)" "rat_of_int (n - 1) < of_int (round_even y)"
    by simp_all
  then have "round_even y < n + 1" "n - 1 < round_even y"
    by (simp_all only: of_int_less_iff)
  then show ?thesis
    by simp
qed

lemma norm_round_pow2: "0 < x \<Longrightarrow> norm_round (x * 2 ^ e) = norm_round x * 2 ^ e"
proof (induction e)
  case 0
  show ?case by simp
next
  case (Suc e)
  have "norm_round (x * 2 ^ Suc e) = norm_round (2 * (x * 2 ^ e))"
    by (simp add: mult.commute mult.left_commute)
  also have "\<dots> = 2 * norm_round (x * 2 ^ e)"
    using Suc.prems by (intro norm_round_twice) simp
  finally show ?case
    using Suc by simp
qed

lemma double_eval:
  assumes "2 ^ 52 \<le> x * 2 ^ e" "x * 2 ^ e < 2 ^ 53" "\<bar>x * 2 ^ e - of_int n\<bar> < 1 / 2"
  shows "double x = of_int n / 2 ^ e"
proof -
  have "0 < x * 2 ^ e"
    using assms(1) by (rule less_le_trans [rotated]) simp
  then have x: "0 < x"
    by (simp add: zero_less_mult_iff)
  have "norm_round (x * 2 ^ e) = of_int (round_even (x * 2 ^ e))"
    using assms(1,2) by (rule norm_round_base)
  then have "norm_round x * 2 ^ e = of_int (round_even (x * 2 ^ e))"
    using x by (simp only: norm_round_pow2)
  moreover have "round_even (x * 2 ^ e) = n"
    using assms(3) by (rule round_even_near)
  ultimately have "norm_round x * 2 ^ e = of_int n"
    by (simp only:)
  then have "norm_round x = of_int n / 2 ^ e"
    by (simp add: eq_divide_eq)
  then show ?thesis
    using x by (simp add: double_def)
qed

lemma round_even_tie:
  assumes "y = of_int n + 1 / 2"
  shows "round_even y = (if even n then n else n + 1)"
proof -
  have "\<lfloor>y\<rfloor> = n"
    using assms by (intro floor_unique) simp_all
  then show ?thesis
    using assms by (simp add: round_even_def)
qed

lemma double_eval_tie:
  assumes "2 ^ 52 \<le> x * 2 ^ e" "x * 2 ^ e < 2 ^ 53" "x * 2 ^ e = of_int n + 1 / 2"
  shows "double x = of_int (if even n then n else n + 1) / 2 ^ e"
proof -
  have "0 < x * 2 ^ e"
    using assms(1) by (rule less_le_trans [rotated]) simp
  then have x: "0 < x"
    by (simp add: zero_less_mult_iff)
  have "norm_round (x * 2 ^ e) = of_int (round_even (x * 2 ^ e))"
    using assms(1,2) by (rule norm_round_base)
  then have "norm_round x * 2 ^ e = of_int (round_even (x * 2 ^ e))"
    using x by (simp only: norm_round_pow2)
  moreover have "round_even (x * 2 ^ e) = (if even n then n else n + 1)"
    using assms(3) by (rule round_even_tie)
  ultimately have "norm_round x * 2 ^ e = of_int (if even n then n else n + 1)"
    by (simp only:)
  then have "norm_round x = of_int (if even n then n else n + 1) / 2 ^ e"
    by (simp add: eq_divide_eq)
  then show ?thesis
    using x by (simp add: double_def)
qed

subsection \<open>Argument checks\<close>

text \<open>
  C9. Every metric on sequences throws when its left or its right argument is
  \<open>null\<close> or \<open>undefined\<close>: the result is the error and nothing else, whatever the other
  argument, the threshold or the instance is. The bounded Levenshtein operation also
  throws on a negative threshold, whatever the two sequences are.
\<close>

theorem null_or_negative_throws:
  "(eq_null left \<or> eq_null right \<longrightarrow>
      unlimitedCompare left right = Inl (Error ''CharSequences must not be null'')
    \<and> limitedCompare left right k = Inl (Error ''CharSequences must not be null'')
    \<and> LevenshteinDetailedDistance_apply this left right
        = Inl (Error ''CharSequences must not be null'')
    \<and> JaroWinklerDistance_apply left right = Inl (Error ''CharSequences must not be null'')
    \<and> HammingDistance_apply left right = Inl (Error ''CharSequences must not be null'')
    \<and> JaccardSimilarity_apply left right = Inl (Error ''Input cannot be null'')
    \<and> JaccardDistance_apply left right = Inl (Error ''Input cannot be null'')
    \<and> fuzzyScore toLowerCase left right = Inl (Error ''provided parameters must not be null''))
   \<and> (k < 0 \<longrightarrow> (\<exists>e. limitedCompare left right k = Inl e))"
  by (simp add: unlimitedCompare_def limitedCompare_def LevenshteinDetailedDistance_apply_def
      JaroWinklerDistance_apply_def HammingDistance_apply_def JaccardSimilarity_apply_def
      JaccardDistance_apply_def fuzzyScore_def)

theorem null_or_negative_throws_witness:
  "(eq_null (Null :: char js_arg) \<or> eq_null (Str ''a''))
   \<and> unlimitedCompare Null (Str ''a'') = Inl (Error ''CharSequences must not be null'')
   \<and> limitedCompare Null (Str ''a'') 3 = Inl (Error ''CharSequences must not be null'')
   \<and> JaroWinklerDistance_apply Null (Str ''a'') = Inl (Error ''CharSequences must not be null'')
   \<and> (- 1 :: int) < 0
   \<and> (\<exists>e. limitedCompare (Str ''a'') (Str ''b'') (- 1) = Inl e)"
  using null_or_negative_throws [of "Null :: char js_arg" "Str ''a''" 3 undefined undefined]
    null_or_negative_throws [of "Str ''a''" "Str ''b''" "- 1" undefined undefined]
  by simp

subsection \<open>Instances\<close>





subsection \<open>Counts and distance of a result\<close>

lemma findDetailedResults_sum:
  "distance (findDetailedResults left right matrix swapped)
     = insertCount (findDetailedResults left right matrix swapped)
       + deleteCount (findDetailedResults left right matrix swapped)
       + substituteCount (findDetailedResults left right matrix swapped)"
  by (simp add: findDetailedResults_def new_LevenshteinResults_def split: prod.splits)

lemma unlimitedCompare_body_sum:
  "distance (unlimitedCompare_body left right)
     = insertCount (unlimitedCompare_body left right)
       + deleteCount (unlimitedCompare_body left right)
       + substituteCount (unlimitedCompare_body left right)"
  by (simp add: unlimitedCompare_body_def Let_def findDetailedResults_sum
      new_LevenshteinResults_def)

lemma limited_finish_sum:
  "0 \<le> distance (limited_finish left right k swapped) \<Longrightarrow>
   distance (limited_finish left right k swapped)
     = insertCount (limited_finish left right k swapped)
       + deleteCount (limited_finish left right k swapped)
       + substituteCount (limited_finish left right k swapped)"
  by (auto simp: limited_finish_def findDetailedResults_sum new_LevenshteinResults_def
      split: option.splits prod.splits if_splits)

lemma limitedCompare_body_sum:
  assumes "0 \<le> distance (limitedCompare_body left right k)"
  shows "distance (limitedCompare_body left right k)
     = insertCount (limitedCompare_body left right k)
       + deleteCount (limitedCompare_body left right k)
       + substituteCount (limitedCompare_body left right k)"
proof -
  consider (a) "left = []" | (b) "left \<noteq> []" "right = []"
    | (c) "left \<noteq> []" "right \<noteq> []" "length left > length right"
    | (d) "left \<noteq> []" "right \<noteq> []" "\<not> length left > length right"
    by blast
  then show ?thesis
  proof cases
    case a
    with assms show ?thesis
      by (simp add: limitedCompare_body_def Let_def new_LevenshteinResults_def split: if_splits)
  next
    case b
    with assms show ?thesis
      by (simp add: limitedCompare_body_def Let_def new_LevenshteinResults_def split: if_splits)
  next
    case c
    then have "limitedCompare_body left right k = limited_finish right left k True"
      by (simp add: limitedCompare_body_def Let_def)
    with assms limited_finish_sum show ?thesis
      by metis
  next
    case d
    then have "limitedCompare_body left right k = limited_finish left right k False"
      by (simp add: limitedCompare_body_def Let_def)
    with assms limited_finish_sum show ?thesis
      by metis
  qed
qed

text \<open>
  C3. A result returned by \<open>unlimitedCompare\<close>, by \<open>limitedCompare\<close>, by \<open>apply\<close> on
  any instance or by \<open>findDetailedResults\<close> on any matrix, whose distance is not
  negative, has a distance equal to the sum of its insert, delete and substitute counts.
  This covers the results for an empty operand and the result \<open>(-1, 0, 0, 0)\<close>, whose
  distance is negative.
\<close>

theorem distance_is_sum_of_counts:
  assumes "unlimitedCompare left right = Inr res
           \<or> limitedCompare left right k = Inr res
           \<or> LevenshteinDetailedDistance_apply this left right = Inr res
           \<or> findDetailedResults l r matrix swapped = res"
    and "0 \<le> distance res"
  shows "distance res = insertCount res + deleteCount res + substituteCount res"
proof -
  from assms(1) consider
      (unl) "unlimitedCompare left right = Inr res"
    | (lim) k' where "limitedCompare left right k' = Inr res"
    | (fdr) "findDetailedResults l r matrix swapped = res"
    by (auto simp: LevenshteinDetailedDistance_apply_def split: if_splits)
  then show ?thesis
  proof cases
    case fdr
    then show ?thesis
      using findDetailedResults_sum by blast
  next
    case unl
    then have "res = unlimitedCompare_body (str_of left) (str_of right)"
      by (auto simp: unlimitedCompare_def split: if_splits)
    then show ?thesis
      using unlimitedCompare_body_sum by blast
  next
    case lim
    then have "res = limitedCompare_body (str_of left) (str_of right) k'"
      by (auto simp: limitedCompare_def split: if_splits)
    then show ?thesis
      using limitedCompare_body_sum assms(2) by blast
  qed
qed

theorem distance_is_sum_of_counts_witness:
  "limitedCompare (Str ''frog'') (Str ''fog'') 1
     = Inr \<lparr>distance = 1, insertCount = 0, deleteCount = 1, substituteCount = 0\<rparr>
   \<and> (0::int) \<le> 1 \<and> (1::int) = 0 + 1 + 0"
proof -
  let ?res = "\<lparr>distance = 1, insertCount = 0, deleteCount = 1, substituteCount = 0\<rparr>"
  have run: "limitedCompare (Str ''frog'') (Str ''fog'') 1 = Inr ?res"
    by code_simp
  have nonneg: "0 \<le> distance ?res"
    by simp
  have "distance ?res = insertCount ?res + deleteCount ?res + substituteCount ?res"
    using distance_is_sum_of_counts [of "Str ''frog''" "Str ''fog''" ?res 1]
      run nonneg by blast
  with run show ?thesis
    by simp
qed

subsection \<open>The backtrace walks inside the matrix\<close>

lemma loop_by_move:
  "0 \<le> rowIndex \<Longrightarrow> 0 \<le> columnIndex \<Longrightarrow>
   findDetailedResults_loop left right matrix swapped rowIndex columnIndex (a, d, s) =
     (case next_move left right matrix rowIndex columnIndex of
        Stop \<Rightarrow> (a, d, s)
      | Match \<Rightarrow> findDetailedResults_loop left right matrix swapped
                   (rowIndex - 1) (columnIndex - 1) (a, d, s)
      | MoveLeft \<Rightarrow> findDetailedResults_loop left right matrix swapped rowIndex (columnIndex - 1)
                   (if swapped then (a + 1, d, s) else (a, d + 1, s))
      | MoveTop \<Rightarrow> findDetailedResults_loop left right matrix swapped (rowIndex - 1) columnIndex
                   (if swapped then (a, d + 1, s) else (a + 1, d, s))
      | Substitute \<Rightarrow> findDetailedResults_loop left right matrix swapped
                   (rowIndex - 1) (columnIndex - 1) (a, d, s + 1))"
proof -
  assume nonneg: "0 \<le> rowIndex" "0 \<le> columnIndex"
  obtain L where L: "(if columnIndex = 0 then - 1
                      else matrix ! nat rowIndex ! nat (columnIndex - 1)) = L"
    by simp
  obtain T where T: "(if rowIndex = 0 then - 1
                      else matrix ! nat (rowIndex - 1) ! nat columnIndex) = T"
    by simp
  obtain D where D: "(if rowIndex > 0 \<and> columnIndex > 0
                      then matrix ! nat (rowIndex - 1) ! nat (columnIndex - 1)
                      else - 1) = D"
    by simp
  obtain E where E: "(columnIndex > 0 \<and> rowIndex > 0
                   \<and> charAt left (columnIndex - 1) = charAt right (rowIndex - 1)) = E"
    by simp
  obtain data where data: "matrix ! nat rowIndex ! nat columnIndex = data"
    by simp
  obtain S where S: "(L = - 1 \<and> T = - 1 \<and> D = - 1) = S"
    by simp
  obtain C1 where C1: "((data - 1 = L \<and> (data \<le> D \<and> data \<le> T)) \<or> (D = - 1 \<and> T = - 1)) = C1"
    by simp
  obtain C2 where C2: "((data - 1 = T \<and> (data \<le> D \<and> data \<le> L)) \<or> (D = - 1 \<and> L = - 1)) = C2"
    by simp
  have lhs: "findDetailedResults_loop left right matrix swapped rowIndex columnIndex (a, d, s) =
     (if S then (a, d, s)
      else if E
        then findDetailedResults_loop left right matrix swapped
               (rowIndex - 1) (columnIndex - 1) (a, d, s)
        else if C1
          then (if swapped
                then findDetailedResults_loop left right matrix swapped
                       rowIndex (columnIndex - 1) (a + 1, d, s)
                else findDetailedResults_loop left right matrix swapped
                       rowIndex (columnIndex - 1) (a, d + 1, s))
          else if C2
            then (if swapped
                  then findDetailedResults_loop left right matrix swapped
                         (rowIndex - 1) columnIndex (a, d + 1, s)
                  else findDetailedResults_loop left right matrix swapped
                         (rowIndex - 1) columnIndex (a + 1, d, s))
            else findDetailedResults_loop left right matrix swapped
                   (rowIndex - 1) (columnIndex - 1) (a, d, s + 1))"
    apply (subst findDetailedResults_loop.simps)
    apply (simp only: Let_def nonneg simp_thms if_True)
    apply (simp only: L T D E data)
    apply (simp only: S C1 C2)
    done
  have mv: "next_move left right matrix rowIndex columnIndex =
     (if S then Stop
      else if E then Match
      else if C1 then MoveLeft
      else if C2 then MoveTop
      else Substitute)"
    apply (simp only: next_move_def Let_def)
    apply (simp only: L T D E data)
    apply (simp only: S C1 C2)
    done
  show ?thesis
    unfolding lhs mv by simp
qed


lemma no_sentinel_mono:
  "no_sentinel M r c \<Longrightarrow> r' \<le> r \<Longrightarrow> c' \<le> c \<Longrightarrow> no_sentinel M r' c'"
  by (auto simp: no_sentinel_def)

lemma no_sentinelD:
  "no_sentinel M r c \<Longrightarrow> 0 \<le> r' \<Longrightarrow> r' \<le> r \<Longrightarrow> 0 \<le> c' \<Longrightarrow> c' \<le> c
     \<Longrightarrow> M ! nat r' ! nat c' \<noteq> - 1"
  by (auto simp: no_sentinel_def)

lemma next_move_inside:
  assumes "0 \<le> rowIndex" "0 \<le> columnIndex" "no_sentinel matrix rowIndex columnIndex"
  shows "next_move left right matrix rowIndex columnIndex = Stop
           \<longleftrightarrow> rowIndex = 0 \<and> columnIndex = 0"
    and "next_move left right matrix rowIndex columnIndex = Match
           \<Longrightarrow> 0 < rowIndex \<and> 0 < columnIndex"
    and "next_move left right matrix rowIndex columnIndex = MoveLeft \<Longrightarrow> 0 < columnIndex"
    and "next_move left right matrix rowIndex columnIndex = MoveTop \<Longrightarrow> 0 < rowIndex"
    and "next_move left right matrix rowIndex columnIndex = Substitute
           \<Longrightarrow> 0 < rowIndex \<and> 0 < columnIndex"
proof -
  have l: "columnIndex \<noteq> 0 \<Longrightarrow> matrix ! nat rowIndex ! nat (columnIndex - 1) \<noteq> - 1"
    using assms no_sentinelD [of matrix rowIndex columnIndex rowIndex "columnIndex - 1"] by simp
  have t: "rowIndex \<noteq> 0 \<Longrightarrow> matrix ! nat (rowIndex - 1) ! nat columnIndex \<noteq> - 1"
    using assms no_sentinelD [of matrix rowIndex columnIndex "rowIndex - 1" columnIndex] by simp
  have d: "rowIndex \<noteq> 0 \<Longrightarrow> columnIndex \<noteq> 0
             \<Longrightarrow> matrix ! nat (rowIndex - 1) ! nat (columnIndex - 1) \<noteq> - 1"
    using assms no_sentinelD [of matrix rowIndex columnIndex "rowIndex - 1" "columnIndex - 1"]
    by simp
  consider (both) "rowIndex = 0" "columnIndex = 0" | (row) "rowIndex = 0" "0 < columnIndex"
    | (col) "0 < rowIndex" "columnIndex = 0" | (inner) "0 < rowIndex" "0 < columnIndex"
    using assms(1,2) by linarith
  note cases = this
  show "next_move left right matrix rowIndex columnIndex = Stop
           \<longleftrightarrow> rowIndex = 0 \<and> columnIndex = 0"
    using l t d by (cases rule: cases) (simp_all add: next_move_def Let_def)
  show "next_move left right matrix rowIndex columnIndex = Match
           \<Longrightarrow> 0 < rowIndex \<and> 0 < columnIndex"
    using l t d by (cases rule: cases) (simp_all add: next_move_def Let_def split: if_splits)
  show "next_move left right matrix rowIndex columnIndex = MoveLeft \<Longrightarrow> 0 < columnIndex"
    using l t d by (cases rule: cases) (simp_all add: next_move_def Let_def split: if_splits)
  show "next_move left right matrix rowIndex columnIndex = MoveTop \<Longrightarrow> 0 < rowIndex"
    using l t d by (cases rule: cases) (simp_all add: next_move_def Let_def split: if_splits)
  show "next_move left right matrix rowIndex columnIndex = Substitute
           \<Longrightarrow> 0 < rowIndex \<and> 0 < columnIndex"
    using l t d by (cases rule: cases) (simp_all add: next_move_def Let_def split: if_splits)
qed

subsection \<open>The cells of both forward passes\<close>

lemma fold_inv:
  "(\<And>x s. x \<in> set xs \<Longrightarrow> P s \<Longrightarrow> P (f x s)) \<Longrightarrow> P s \<Longrightarrow> P (fold f xs s)"
  by (induction xs arbitrary: s) simp_all

lemma row_ok_update: "row_ok n p \<Longrightarrow> 0 \<le> v \<Longrightarrow> row_ok n (p[i := v])"
  using set_update_subset_insert [of p i v] by (auto simp: row_ok_def)

lemma row_ok_nth: "row_ok n p \<Longrightarrow> i \<le> n \<Longrightarrow> 0 \<le> p ! i"
  by (simp add: row_ok_def)

lemma row_ok_replicate: "0 \<le> v \<Longrightarrow> row_ok n (replicate (n + 1) v)"
  by (simp add: row_ok_def)

lemma cells_ok_update:
  assumes "cells_ok n m matrix" "0 \<le> v"
  shows "cells_ok n m (matrix[j := (matrix ! j)[i := v]])"
proof (cases "j < length matrix")
  case True
  then have "row_ok n (matrix ! j)"
    using assms(1) by (simp add: cells_ok_def)
  then have "row_ok n ((matrix ! j)[i := v])"
    using assms(2) by (rule row_ok_update)
  then show ?thesis
    using assms(1) set_update_subset_insert [of matrix j "(matrix ! j)[i := v]"]
    by (auto simp: cells_ok_def)
next
  case False
  then have "matrix[j := (matrix ! j)[i := v]] = matrix"
    by (simp add: list_update_beyond)
  then show ?thesis
    using assms(1) by simp
qed

lemma cells_ok_nth:
  assumes "cells_ok n m matrix" "r \<le> m" "c \<le> n"
  shows "0 \<le> matrix ! r ! c"
proof -
  have "matrix ! r \<in> set matrix"
    using assms(1,2) by (simp add: cells_ok_def)
  then have "row_ok n (matrix ! r)"
    using assms(1) by (simp add: cells_ok_def)
  then show ?thesis
    using assms(3) by (rule row_ok_nth)
qed

lemma cells_ok_no_sentinel:
  assumes "cells_ok n m matrix"
  shows "no_sentinel matrix (int m) (int n)"
  unfolding no_sentinel_def
proof (intro allI impI)
  fix r c :: int
  assume "0 \<le> r \<and> r \<le> int m \<and> 0 \<le> c \<and> c \<le> int n"
  then have "nat r \<le> m" "nat c \<le> n"
    by auto
  then have "0 \<le> matrix ! nat r ! nat c"
    by (rule cells_ok_nth [OF assms])
  then show "matrix ! nat r ! nat c \<noteq> - 1"
    by simp
qed

lemma init_matrix_ok: "cells_ok n m (init_matrix n m)"
proof -
  have start: "cells_ok n m (createArray (m + 1) (createArray (n + 1) (0::int)))"
    by (simp add: cells_ok_def row_ok_def createArray_def)
  have first: "cells_ok n m
      (fold (\<lambda>index mat. mat[0 := (mat ! 0)[index := int index]]) [0..<n + 1]
         (createArray (m + 1) (createArray (n + 1) (0::int))))"
    by (rule fold_inv [where P = "cells_ok n m"]) (simp add: cells_ok_update, rule start)
  show ?thesis
    unfolding init_matrix_def Let_def
    by (rule fold_inv [where P = "cells_ok n m"]) (simp add: cells_ok_update, rule first)
qed

lemma unlimited_inner_ok:
  assumes "row_ok n p" "row_ok n d" "cells_ok n m matrix" "1 \<le> i" "i \<le> n"
  shows "row_ok n (fst (unlimited_inner left rightJ p j i (d, matrix)))
       \<and> cells_ok n m (snd (unlimited_inner left rightJ p j i (d, matrix)))"
proof -
  define v where "v = min (min (d ! (i - 1) + 1) (p ! i + 1))
                          (p ! (i - 1) + (if charAt left (int i - 1) = rightJ then 0 else 1))"
  have "0 \<le> d ! (i - 1)" "0 \<le> p ! i" "0 \<le> p ! (i - 1)"
    using assms by (simp_all add: row_ok_nth)
  then have v: "0 \<le> v"
    by (simp add: v_def)
  have len: "i < length d"
    using assms(2,5) by (simp add: row_ok_def)
  have eq: "unlimited_inner left rightJ p j i (d, matrix)
              = (d[i := v], matrix[j := (matrix ! j)[i := v]])"
    using len by (simp add: unlimited_inner_def Let_def v_def)
  show ?thesis
    unfolding eq using assms(2,3) v by (simp add: row_ok_update cells_ok_update)
qed

lemma unlimited_outer_ok:
  assumes "row_ok n p" "row_ok n d" "cells_ok n m matrix"
  shows "row_ok n (fst (unlimited_outer left right n j (p, d, matrix)))
       \<and> row_ok n (fst (snd (unlimited_outer left right n j (p, d, matrix))))
       \<and> cells_ok n m (snd (snd (unlimited_outer left right n j (p, d, matrix))))"
proof -
  let ?P = "\<lambda>st. row_ok n (fst st) \<and> cells_ok n m (snd st)"
  let ?rightJ = "charAt right (int j - 1)"
  define F where "F = fold (unlimited_inner left ?rightJ p j) [1..<n + 1] (d[0 := int j], matrix)"
  have eq: "unlimited_outer left right n j (p, d, matrix) = (fst F, p, snd F)"
    unfolding unlimited_outer_def Let_def F_def
    by (simp only: case_prod_beta prod.case fst_conv snd_conv)
  have "?P F"
    unfolding F_def
  proof (rule fold_inv [where P = ?P])
    fix x st
    assume "x \<in> set [1..<n + 1]" "?P st"
    then have "1 \<le> x" "x \<le> n" "row_ok n (fst st)" "cells_ok n m (snd st)"
      by auto
    then show "?P (unlimited_inner left ?rightJ p j x st)"
      using unlimited_inner_ok [OF assms(1), of "fst st" m "snd st" x left ?rightJ j]
      by simp
  next
    show "?P (d[0 := int j], matrix)"
      using assms by (simp add: row_ok_update)
  qed
  then show ?thesis
    unfolding eq using assms(1) by simp
qed

lemma unlimited_matrix_ok:
  "cells_ok (length left) (length right) (unlimited_matrix left right)"
proof -
  let ?n = "length left" and ?m = "length right"
  let ?P = "\<lambda>st. row_ok ?n (fst st) \<and> row_ok ?n (fst (snd st)) \<and> cells_ok ?n ?m (snd (snd st))"
  have z: "row_ok ?n (createArray (?n + 1) (0::int))"
    unfolding createArray_def by (rule row_ok_replicate) simp
  have p0: "row_ok ?n (fold (\<lambda>i p. p[i := int i]) [0..<?n + 1] (createArray (?n + 1) (0::int)))"
    by (rule fold_inv [where P = "row_ok ?n"]) (simp add: row_ok_update, rule z)
  have "?P (unlimited_pass left right)"
    unfolding unlimited_pass_def Let_def
  proof (rule fold_inv [where P = ?P])
    fix x st
    assume "?P st"
    then show "?P (unlimited_outer left right ?n x st)"
      using unlimited_outer_ok [of ?n "fst st" "fst (snd st)" ?m "snd (snd st)" left right x]
      by simp
  next
    show "?P (fold (\<lambda>i p. p[i := int i]) [0..<?n + 1] (createArray (?n + 1) (0::int)),
              createArray (?n + 1) (0::int), init_matrix ?n ?m)"
      using p0 z init_matrix_ok [of ?n ?m] by simp
  qed
  then show ?thesis
    by (simp add: unlimited_matrix_def)
qed


lemma MAX_VALUE_nonneg: "0 \<le> MAX_VALUE"
  by (simp add: MAX_VALUE_def)

lemma one_plus_nonneg: "0 \<le> x \<Longrightarrow> 0 \<le> one_plus x"
  using MAX_VALUE_nonneg by (simp add: one_plus_def)

lemma js_fill_ok: "row_ok n p \<Longrightarrow> 0 \<le> v \<Longrightarrow> row_ok n (js_fill p v a b)"
  unfolding js_fill_def by (rule fold_inv [where P = "row_ok n"]) (simp_all add: row_ok_update)

lemma limited_inner_ok:
  assumes "row_ok n p" "row_ok n d" "cells_ok n m matrix" "1 \<le> i" "i \<le> n"
  shows "row_ok n (fst (limited_inner left rightJ p j i (d, matrix)))
       \<and> cells_ok n m (snd (limited_inner left rightJ p j i (d, matrix)))"
proof -
  define v where "v = (if charAt left (int i - 1) = rightJ then p ! (i - 1)
                       else one_plus (min (min (d ! (i - 1)) (p ! i)) (p ! (i - 1))))"
  have "0 \<le> d ! (i - 1)" "0 \<le> p ! i" "0 \<le> p ! (i - 1)"
    using assms by (simp_all add: row_ok_nth)
  then have v: "0 \<le> v"
    by (simp add: v_def one_plus_nonneg)
  have len: "i < length d"
    using assms(2,5) by (simp add: row_ok_def)
  have eq: "limited_inner left rightJ p j i (d, matrix)
              = (d[i := v], matrix[j := (matrix ! j)[i := v]])"
    using len by (simp add: limited_inner_def Let_def v_def)
  show ?thesis
    unfolding eq using assms(2,3) v by (simp add: row_ok_update cells_ok_update)
qed

lemma limited_loop_unfold:
  "j \<le> m \<Longrightarrow>
   limited_loop left right k n m j (p, d, matrix) =
     (let min_i = max 1 (int j - k);
          max_i = (if int j > MAX_VALUE - k then int n else min (int n) (int j + k));
          d2 = (if min_i > 1 then d[0 := int j, nat (min_i - 1) := MAX_VALUE] else d[0 := int j]);
          F = fold (limited_inner left (charAt right (int j - 1)) p j)
                [nat min_i..<nat max_i + 1] (d2, matrix)
      in if min_i > max_i then None
         else limited_loop left right k n m (j + 1) (fst F, p, snd F))"
  apply (subst limited_loop.simps)
  apply (simp only: Let_def case_prod_beta if_True)
  done

lemma limited_loop_ok:
  "row_ok n p \<Longrightarrow> row_ok n d \<Longrightarrow> cells_ok n m matrix \<Longrightarrow>
   limited_loop left right k n m j (p, d, matrix) = Some (p', d', matrix') \<Longrightarrow>
   row_ok n p' \<and> row_ok n d' \<and> cells_ok n m matrix'"
proof (induction "m + 1 - j" arbitrary: j p d matrix rule: less_induct)
  case less
  show ?case
  proof (cases "j \<le> m")
    case False
    then have "limited_loop left right k n m j (p, d, matrix) = Some (p, d, matrix)"
      by (subst limited_loop.simps) simp
    with less.prems show ?thesis
      by simp
  next
    case True
    define min_i where "min_i = max 1 (int j - k)"
    define max_i where "max_i = (if int j > MAX_VALUE - k then int n else min (int n) (int j + k))"
    define d2 where "d2 = (if min_i > 1 then d[0 := int j, nat (min_i - 1) := MAX_VALUE]
                           else d[0 := int j])"
    define F where "F = fold (limited_inner left (charAt right (int j - 1)) p j)
                          [nat min_i..<nat max_i + 1] (d2, matrix)"
    have unfold: "limited_loop left right k n m j (p, d, matrix) =
        (if min_i > max_i then None
         else limited_loop left right k n m (j + 1) (fst F, p, snd F))"
      unfolding limited_loop_unfold [OF True] Let_def min_i_def max_i_def d2_def F_def ..
    have d2: "row_ok n d2"
      using less.prems(2) MAX_VALUE_nonneg by (simp add: d2_def row_ok_update)
    let ?P = "\<lambda>st. row_ok n (fst st) \<and> cells_ok n m (snd st)"
    have "?P F"
      unfolding F_def
    proof (rule fold_inv [where P = ?P])
      fix x st
      assume "x \<in> set [nat min_i..<nat max_i + 1]" "?P st"
      then have "1 \<le> x" "x \<le> n" "row_ok n (fst st)" "cells_ok n m (snd st)"
        by (auto simp: min_i_def max_i_def split: if_splits)
      then show "?P (limited_inner left (charAt right (int j - 1)) p j x st)"
        using limited_inner_ok [OF less.prems(1), of "fst st" m "snd st" x left _ j]
        by simp
    next
      show "?P (d2, matrix)"
        using d2 less.prems(3) by simp
    qed
    moreover have "limited_loop left right k n m (j + 1) (fst F, p, snd F)
                     = Some (p', d', matrix')"
      using unfold less.prems(4) by (simp split: if_splits)
    ultimately show ?thesis
      using less.hyps [of "j + 1" "fst F" p "snd F"] True less.prems(1) by simp
  qed
qed

lemma limited_pass_ok:
  assumes "limited_pass left right k = Some (p, d, matrix)"
  shows "cells_ok (length left) (length right) matrix"
proof -
  let ?n = "length left" and ?m = "length right"
  let ?b = "nat (min (int ?n) k) + 1"
  have z: "row_ok ?n (createArray (?n + 1) (0::int))"
    unfolding createArray_def by (rule row_ok_replicate) simp
  have p0: "row_ok ?n (fold (\<lambda>i p. p[i := int i]) [0..<?b] (createArray (?n + 1) (0::int)))"
    by (rule fold_inv [where P = "row_ok ?n"]) (simp add: row_ok_update, rule z)
  note p1 = js_fill_ok [OF p0 MAX_VALUE_nonneg]
  note d1 = js_fill_ok [OF z MAX_VALUE_nonneg]
  from assms have run: "limited_loop left right k ?n ?m 1
      (js_fill (fold (\<lambda>i p. p[i := int i]) [0..<?b] (createArray (?n + 1) (0::int))) MAX_VALUE ?b
         (length (fold (\<lambda>i p. p[i := int i]) [0..<?b] (createArray (?n + 1) (0::int)))),
       js_fill (createArray (?n + 1) (0::int)) MAX_VALUE 0 (length (createArray (?n + 1) (0::int))),
       init_matrix ?n ?m) = Some (p, d, matrix)"
    unfolding limited_pass_def Let_def .
  from limited_loop_ok [OF p1 d1 init_matrix_ok run] show ?thesis
    by blast
qed


subsection \<open>The counts are those of an edit script\<close>

lemma edit_script_balance:
  "edit_script xs ys i d s \<Longrightarrow> i - d = int (length ys) - int (length xs)"
  by (induction rule: edit_script.induct) simp_all

lemma edit_script_insert_all: "edit_script [] ys (int (length ys)) 0 0"
proof (induction ys rule: rev_induct)
  case Nil
  show ?case by (simp add: edit_script.finished)
next
  case (snoc y ys)
  from edit_script.insert [OF snoc, of y] show ?case
    by (simp add: add.commute)
qed

lemma edit_script_delete_all: "edit_script xs [] 0 (int (length xs)) 0"
proof (induction xs rule: rev_induct)
  case Nil
  show ?case by (simp add: edit_script.finished)
next
  case (snoc x xs)
  from edit_script.delete [OF snoc, of x] show ?case
    by (simp add: add.commute)
qed

lemma take_step:
  "0 < c \<Longrightarrow> c \<le> int (length xs) \<Longrightarrow> take (nat c) xs = take (nat (c - 1)) xs @ [xs ! nat (c - 1)]"
  using take_Suc_conv_app_nth [of "nat (c - 1)" xs]
  by (simp add: Suc_nat_eq_nat_zadd1)

lemma charAt_inside:
  "0 < c \<Longrightarrow> c \<le> int (length xs) \<Longrightarrow> charAt xs (c - 1) = [xs ! nat (c - 1)]"
  by (simp add: charAt_def)

lemma next_move_chars:
  assumes "0 < rowIndex" "0 < columnIndex"
  shows "next_move left right matrix rowIndex columnIndex = Match
           \<Longrightarrow> charAt left (columnIndex - 1) = charAt right (rowIndex - 1)"
    and "next_move left right matrix rowIndex columnIndex = Substitute
           \<Longrightarrow> charAt left (columnIndex - 1) \<noteq> charAt right (rowIndex - 1)"
  using assms by (simp_all add: next_move_def Let_def split: if_splits)

lemma backtrace_script:
  "0 \<le> rowIndex \<Longrightarrow> rowIndex \<le> int (length right) \<Longrightarrow>
   0 \<le> columnIndex \<Longrightarrow> columnIndex \<le> int (length left) \<Longrightarrow>
   no_sentinel matrix rowIndex columnIndex \<Longrightarrow>
   findDetailedResults_loop left right matrix swapped rowIndex columnIndex (a, d, s) = (a', d', s') \<Longrightarrow>
   (if swapped
    then edit_script (take (nat rowIndex) right) (take (nat columnIndex) left)
           (a' - a) (d' - d) (s' - s)
    else edit_script (take (nat columnIndex) left) (take (nat rowIndex) right)
           (a' - a) (d' - d) (s' - s))"
proof (induction "nat (rowIndex + columnIndex)" arbitrary: rowIndex columnIndex a d s
       rule: less_induct)
  case less
  note nonneg = less.prems(1,3)
  note bound = less.prems(2,4)
  note inside = next_move_inside [OF nonneg less.prems(5), of left right]
  note unfold = loop_by_move [OF nonneg, of left right matrix swapped a d s]
  note run = less.prems(6)
  have m1: "no_sentinel matrix (rowIndex - 1) (columnIndex - 1)"
    and m2: "no_sentinel matrix rowIndex (columnIndex - 1)"
    and m3: "no_sentinel matrix (rowIndex - 1) columnIndex"
    using less.prems(5) by (auto elim: no_sentinel_mono)
  show ?case
  proof (cases "next_move left right matrix rowIndex columnIndex")
    case Stop
    with unfold run inside(1) show ?thesis
      by (simp add: edit_script.finished)
  next
    case Match
    then have pos: "0 < rowIndex" "0 < columnIndex" using inside(2) by simp_all
    have same: "left ! nat (columnIndex - 1) = right ! nat (rowIndex - 1)"
      using next_move_chars(1) [OF pos Match]
      by (simp add: charAt_inside [OF pos(2) bound(2)] charAt_inside [OF pos(1) bound(1)])
    have "findDetailedResults_loop left right matrix swapped (rowIndex - 1) (columnIndex - 1)
            (a, d, s) = (a', d', s')"
      using unfold run Match by simp
    from less.hyps [OF _ _ _ _ _ m1 this] pos bound
    have "if swapped
          then edit_script (take (nat (rowIndex - 1)) right) (take (nat (columnIndex - 1)) left)
                 (a' - a) (d' - d) (s' - s)
          else edit_script (take (nat (columnIndex - 1)) left) (take (nat (rowIndex - 1)) right)
                 (a' - a) (d' - d) (s' - s)"
      by simp
    then show ?thesis
      using edit_script.keep [of _ _ "a' - a" "d' - d" "s' - s" "left ! nat (columnIndex - 1)"]
        same take_step [OF pos(1) bound(1)] take_step [OF pos(2) bound(2)]
      by (simp split: if_splits)
  next
    case MoveLeft
    then have pos: "0 < columnIndex" using inside(3) by simp
    have step: "findDetailedResults_loop left right matrix swapped rowIndex (columnIndex - 1)
            (if swapped then a + 1 else a, if swapped then d else d + 1, s) = (a', d', s')"
      using unfold run MoveLeft by (simp split: if_splits)
    from less.hyps [OF _ _ _ _ _ m2 step] pos nonneg bound
    have "if swapped
          then edit_script (take (nat rowIndex) right) (take (nat (columnIndex - 1)) left)
                 (a' - a - 1) (d' - d) (s' - s)
          else edit_script (take (nat (columnIndex - 1)) left) (take (nat rowIndex) right)
                 (a' - a) (d' - d - 1) (s' - s)"
      by (simp split: if_splits add: algebra_simps)
    then show ?thesis
      using edit_script.insert [of _ _ "a' - a - 1" "d' - d" "s' - s" "left ! nat (columnIndex - 1)"]
        edit_script.delete [of _ _ "a' - a" "d' - d - 1" "s' - s" "left ! nat (columnIndex - 1)"]
        take_step [OF pos bound(2)]
      by (simp split: if_splits)
  next
    case MoveTop
    then have pos: "0 < rowIndex" using inside(4) by simp
    have step: "findDetailedResults_loop left right matrix swapped (rowIndex - 1) columnIndex
            (if swapped then a else a + 1, if swapped then d + 1 else d, s) = (a', d', s')"
      using unfold run MoveTop by (simp split: if_splits)
    from less.hyps [OF _ _ _ _ _ m3 step] pos nonneg bound
    have "if swapped
          then edit_script (take (nat (rowIndex - 1)) right) (take (nat columnIndex) left)
                 (a' - a) (d' - d - 1) (s' - s)
          else edit_script (take (nat columnIndex) left) (take (nat (rowIndex - 1)) right)
                 (a' - a - 1) (d' - d) (s' - s)"
      by (simp split: if_splits add: algebra_simps)
    then show ?thesis
      using edit_script.insert [of _ _ "a' - a - 1" "d' - d" "s' - s" "right ! nat (rowIndex - 1)"]
        edit_script.delete [of _ _ "a' - a" "d' - d - 1" "s' - s" "right ! nat (rowIndex - 1)"]
        take_step [OF pos bound(1)]
      by (simp split: if_splits)
  next
    case Substitute
    then have pos: "0 < rowIndex" "0 < columnIndex" using inside(5) by simp_all
    have differ: "left ! nat (columnIndex - 1) \<noteq> right ! nat (rowIndex - 1)"
      using next_move_chars(2) [OF pos Substitute]
      by (simp add: charAt_inside [OF pos(2) bound(2)] charAt_inside [OF pos(1) bound(1)])
    have step: "findDetailedResults_loop left right matrix swapped (rowIndex - 1) (columnIndex - 1)
            (a, d, s + 1) = (a', d', s')"
      using unfold run Substitute by simp
    from less.hyps [OF _ _ _ _ _ m1 step] pos bound
    have "if swapped
          then edit_script (take (nat (rowIndex - 1)) right) (take (nat (columnIndex - 1)) left)
                 (a' - a) (d' - d) (s' - (s + 1))
          else edit_script (take (nat (columnIndex - 1)) left) (take (nat (rowIndex - 1)) right)
                 (a' - a) (d' - d) (s' - (s + 1))"
      by simp
    then show ?thesis
      using edit_script.substitute [of _ _ "a' - a" "d' - d" "s' - (s + 1)"
              "left ! nat (columnIndex - 1)" "right ! nat (rowIndex - 1)"]
        edit_script.substitute [of _ _ "a' - a" "d' - d" "s' - (s + 1)"
              "right ! nat (rowIndex - 1)" "left ! nat (columnIndex - 1)"]
        differ take_step [OF pos(1) bound(1)] take_step [OF pos(2) bound(2)]
      by (simp split: if_splits)
  qed
qed


lemma findDetailedResults_script:
  assumes "cells_ok (length left) (length right) matrix"
  shows "if swapped
         then edit_script right left
                (insertCount (findDetailedResults left right matrix swapped))
                (deleteCount (findDetailedResults left right matrix swapped))
                (substituteCount (findDetailedResults left right matrix swapped))
         else edit_script left right
                (insertCount (findDetailedResults left right matrix swapped))
                (deleteCount (findDetailedResults left right matrix swapped))
                (substituteCount (findDetailedResults left right matrix swapped))"
proof -
  obtain a d s where run:
    "findDetailedResults_loop left right matrix swapped
       (int (length right)) (int (length left)) (0, 0, 0) = (a, d, s)"
    using prod_cases3 by blast
  have res: "insertCount (findDetailedResults left right matrix swapped) = a"
    "deleteCount (findDetailedResults left right matrix swapped) = d"
    "substituteCount (findDetailedResults left right matrix swapped) = s"
    by (simp_all add: findDetailedResults_def run new_LevenshteinResults_def)
  from backtrace_script [OF _ _ _ _ cells_ok_no_sentinel [OF assms] run]
  show ?thesis
    unfolding res by (cases swapped) simp_all
qed

lemma unlimitedCompare_body_script:
  "edit_script left right
     (insertCount (unlimitedCompare_body left right))
     (deleteCount (unlimitedCompare_body left right))
     (substituteCount (unlimitedCompare_body left right))"
proof -
  consider (a) "left = []" | (b) "left \<noteq> []" "right = []"
    | (c) "left \<noteq> []" "right \<noteq> []" "length left > length right"
    | (d) "left \<noteq> []" "right \<noteq> []" "\<not> length left > length right"
    by blast
  then show ?thesis
  proof cases
    case a
    then show ?thesis
      by (simp add: unlimitedCompare_body_def Let_def new_LevenshteinResults_def
          edit_script_insert_all)
  next
    case b
    then show ?thesis
      using edit_script_delete_all [of left]
      by (simp add: unlimitedCompare_body_def Let_def new_LevenshteinResults_def)
  next
    case c
    then have "unlimitedCompare_body left right
                 = findDetailedResults right left (unlimited_matrix right left) True"
      by (simp add: unlimitedCompare_body_def Let_def)
    then show ?thesis
      using findDetailedResults_script
              [where swapped = True and left = right and right = left, OF unlimited_matrix_ok]
      by simp
  next
    case d
    then have "unlimitedCompare_body left right
                 = findDetailedResults left right (unlimited_matrix left right) False"
      by (simp add: unlimitedCompare_body_def Let_def)
    then show ?thesis
      using findDetailedResults_script
              [where swapped = False and left = left and right = right, OF unlimited_matrix_ok]
      by simp
  qed
qed

lemma limited_finish_script:
  assumes "0 \<le> distance (limited_finish left right k swapped)"
  shows "if swapped
         then edit_script right left
                (insertCount (limited_finish left right k swapped))
                (deleteCount (limited_finish left right k swapped))
                (substituteCount (limited_finish left right k swapped))
         else edit_script left right
                (insertCount (limited_finish left right k swapped))
                (deleteCount (limited_finish left right k swapped))
                (substituteCount (limited_finish left right k swapped))"
proof (cases "limited_pass left right k")
  case None
  with assms show ?thesis
    by (simp add: limited_finish_def new_LevenshteinResults_def)
next
  case (Some st)
  obtain p d matrix where st: "st = (p, d, matrix)"
    using prod_cases3 by blast
  have ok: "cells_ok (length left) (length right) matrix"
    using Some st by (auto intro: limited_pass_ok)
  show ?thesis
  proof (cases "p ! length left \<le> k")
    case True
    then have "limited_finish left right k swapped = findDetailedResults left right matrix swapped"
      using Some st by (simp add: limited_finish_def)
    then show ?thesis
      using findDetailedResults_script [OF ok, of swapped] by (cases swapped) simp_all
  next
    case False
    then have "limited_finish left right k swapped = new_LevenshteinResults (- 1) 0 0 0"
      using Some st by (simp add: limited_finish_def)
    with assms show ?thesis
      by (simp add: new_LevenshteinResults_def)
  qed
qed


lemma limitedCompare_body_script:
  assumes "0 \<le> distance (limitedCompare_body left right k)"
  shows "edit_script left right
     (insertCount (limitedCompare_body left right k))
     (deleteCount (limitedCompare_body left right k))
     (substituteCount (limitedCompare_body left right k))"
proof -
  consider (a) "left = []" | (b) "left \<noteq> []" "right = []"
    | (c) "left \<noteq> []" "right \<noteq> []" "length left > length right"
    | (d) "left \<noteq> []" "right \<noteq> []" "\<not> length left > length right"
    by blast
  then show ?thesis
  proof cases
    case a
    with assms show ?thesis
      by (simp add: limitedCompare_body_def Let_def new_LevenshteinResults_def
          edit_script_insert_all split: if_splits)
  next
    case b
    with assms show ?thesis
      using edit_script_delete_all [of left]
      by (simp add: limitedCompare_body_def Let_def new_LevenshteinResults_def split: if_splits)
  next
    case c
    then have "limitedCompare_body left right k = limited_finish right left k True"
      by (simp add: limitedCompare_body_def Let_def)
    with assms show ?thesis
      using limited_finish_script [of right left k True] by simp
  next
    case d
    then have "limitedCompare_body left right k = limited_finish left right k False"
      by (simp add: limitedCompare_body_def Let_def)
    with assms show ?thesis
      using limited_finish_script [of left right k False] by simp
  qed
qed

text \<open>
  C5. When \<open>unlimitedCompare\<close>, \<open>limitedCompare\<close> or \<open>apply\<close> returns a result whose
  distance is not negative, its counts are those of an edit script that turns the left
  argument of the call into the right argument of the call, whether or not the operands
  were swapped inside; in particular the insert count minus the delete count is the length
  of the right argument minus the length of the left argument.
\<close>

theorem counts_describe_left_to_right:
  assumes "unlimitedCompare (Str left) (Str right) = Inr res
           \<or> limitedCompare (Str left) (Str right) k = Inr res
           \<or> LevenshteinDetailedDistance_apply this (Str left) (Str right) = Inr res"
    and "0 \<le> distance res"
  shows "edit_script left right (insertCount res) (deleteCount res) (substituteCount res)
       \<and> insertCount res - deleteCount res = int (length right) - int (length left)"
proof -
  from assms(1) consider
      (unl) "unlimitedCompare (Str left) (Str right) = Inr res"
    | (lim) k' where "limitedCompare (Str left) (Str right) k' = Inr res"
    by (auto simp: LevenshteinDetailedDistance_apply_def split: if_splits)
  then have "edit_script left right (insertCount res) (deleteCount res) (substituteCount res)"
  proof cases
    case unl
    then have "res = unlimitedCompare_body left right"
      by (auto simp: unlimitedCompare_def split: if_splits)
    then show ?thesis
      using unlimitedCompare_body_script by blast
  next
    case lim
    then have "res = limitedCompare_body left right k'"
      by (auto simp: limitedCompare_def split: if_splits)
    then show ?thesis
      using limitedCompare_body_script assms(2) by blast
  qed
  then show ?thesis
    using edit_script_balance by blast
qed

theorem counts_describe_left_to_right_witness:
  "unlimitedCompare (Str ''frog'') (Str ''fog'')
     = Inr \<lparr>distance = 1, insertCount = 0, deleteCount = 1, substituteCount = 0\<rparr>
   \<and> (0::int) \<le> 1
   \<and> edit_script ''frog'' ''fog'' 0 1 0
   \<and> (0::int) - 1 = int (length ''fog'') - int (length ''frog'')"
proof -
  let ?res = "\<lparr>distance = 1, insertCount = 0, deleteCount = 1, substituteCount = 0\<rparr>"
  have run: "unlimitedCompare (Str ''frog'') (Str ''fog'') = Inr ?res"
    by code_simp
  have nonneg: "0 \<le> distance ?res"
    by simp
  from counts_describe_left_to_right [of "''frog''" "''fog''" ?res 0 undefined] run nonneg
  show ?thesis
    by simp
qed

subsection \<open>Where the results leave the Levenshtein distance\<close>

text \<open>
  C1. \<open>limitedCompare\<close> is documented to return the Levenshtein distance of its
  arguments when that is within the threshold. For \<open>''aa''\<close>, \<open>''aab''\<close> and threshold 1
  the Levenshtein distance is 1, within the threshold, and the result has distance 2:
  the cell left of the last cell lies outside the stripe, was never written and still
  holds 0, and the backtrace reads it.
\<close>

theorem limitedCompare_distance_differs:
  "limitedCompare (Str ''aa'') (Str ''aab'') 1
     = Inr \<lparr>distance = 2, insertCount = 1, deleteCount = 0, substituteCount = 1\<rparr>
   \<and> levenshtein ''aa'' ''aab'' = 1"
  by code_simp

text \<open>
  C2. The sum of the counts of the backtrace is not always the last cell of the matrix.
  For \<open>''aba''\<close> and \<open>''bab''\<close> the forward pass of \<open>unlimitedCompare\<close> ends with 2 in
  the last cell and the backtrace counts three substitutions: when the left and the top
  neighbour both hold one less than the cell, neither directional test passes and the
  step is counted as a substitution although the diagonal neighbour is not smaller.
  In bounded mode, for \<open>''aa''\<close>, \<open>''aab''\<close> and threshold 1 the last cell is 1 and the
  counts sum to 2.
\<close>

theorem backtrace_sum_differs_from_final_cell:
  "unlimited_matrix ''aba'' ''bab'' ! 3 ! 3 = 2
   \<and> unlimitedCompare (Str ''aba'') (Str ''bab'')
       = Inr \<lparr>distance = 3, insertCount = 0, deleteCount = 0, substituteCount = 3\<rparr>
   \<and> map_option (\<lambda>(p, d, matrix). (p ! 2, matrix ! 3 ! 2)) (limited_pass ''aa'' ''aab'' 1)
       = Some (1, 1)
   \<and> limitedCompare (Str ''aa'') (Str ''aab'') 1
       = Inr \<lparr>distance = 2, insertCount = 1, deleteCount = 0, substituteCount = 1\<rparr>"
  by code_simp

text \<open>
  C6. The distance returned for a fixed pair of arguments changes with the threshold:
  for \<open>''aa''\<close> and \<open>''aab''\<close> threshold 1 gives distance 2 and threshold 2, which is not
  below that distance, gives distance 1.
\<close>

theorem threshold_changes_distance:
  "limitedCompare (Str ''aa'') (Str ''aab'') 1
     = Inr \<lparr>distance = 2, insertCount = 1, deleteCount = 0, substituteCount = 1\<rparr>
   \<and> limitedCompare (Str ''aa'') (Str ''aab'') 2
     = Inr \<lparr>distance = 1, insertCount = 1, deleteCount = 0, substituteCount = 0\<rparr>"
  by code_simp

subsection \<open>The matching window of Jaro-Winkler\<close>

text \<open>
  The scores of two pairs of strings, rounding by rounding. Every step gives the
  integer nearest to the scaled exact result.
\<close>

lemma score_a_bab:
  "jaro_winkler_score ''a'' ''bab'' = 875699927544263 / 1125899906842624"
proof -
  have mtp: "matches ''a'' ''bab'' = (1, 0, 0)"
    by code_simp
  have num: "js_number 0 = 0" "js_number 1 = 1" "js_number 3 = 3"
    by (simp_all add: js_number_small)
  have k1: "double (1 / 10) = 3602879701896397 / 36028797018963968"
    using double_eval [of "1 / 10" 56 7205759403792794] by simp
  have k7: "double (7 / 10) = 3152519739159347 / 4503599627370496"
    using double_eval [of "7 / 10" 53 6305039478318694] by simp
  have a: "fl_div 1 1 = 1"
    unfolding fl_div_def
    using double_eval [of "1 / 1" 52 4503599627370496] by simp
  have b: "fl_div 1 3 = (6004799503160661 / 18014398509481984)"
    unfolding fl_div_def
    using double_eval [of "1 / 3" 54 6004799503160661] by simp
  have h2: "fl_div 0 2 = 0"
    by (simp add: fl_div_def double_zero)
  have n3: "fl_sub 1 0 = 1"
    unfolding fl_sub_def
    using double_eval [of "1 - 0" 52 4503599627370496] by simp
  have s1: "fl_add 1 (6004799503160661 / 18014398509481984) = (6004799503160661 / 4503599627370496)"
    unfolding fl_add_def
    using double_eval [of "1 + (6004799503160661 / 18014398509481984)" 52 6004799503160661] by simp
  have s2: "fl_add (6004799503160661 / 4503599627370496) 1 = (2627099782632789 / 1125899906842624)"
    unfolding fl_add_def
    using double_eval_tie [of "(6004799503160661 / 4503599627370496) + 1" 51 5254199565265578] by simp
  have j: "fl_div (2627099782632789 / 1125899906842624) 3 = (875699927544263 / 1125899906842624)"
    unfolding fl_div_def
    using double_eval [of "(2627099782632789 / 1125899906842624) / 3" 53 7005599420354104] by simp
  have k2: "fl_mul (3602879701896397 / 36028797018963968) 0 = 0"
    by (simp add: fl_mul_def double_zero)
  have u: "fl_sub 1 (875699927544263 / 1125899906842624) = (250199979298361 / 1125899906842624)"
    unfolding fl_sub_def
    using double_eval [of "1 - (875699927544263 / 1125899906842624)" 55 8006399337547552] by simp
  have t: "fl_mul 0 (250199979298361 / 1125899906842624) = 0"
    by (simp add: fl_mul_def double_zero)
  have w: "fl_add (875699927544263 / 1125899906842624) 0 = (875699927544263 / 1125899906842624)"
    unfolding fl_add_def
    using double_eval [of "(875699927544263 / 1125899906842624) + 0" 53 7005599420354104] by simp
  have len: "length ''a'' = 1" "length ''bab'' = 3"
    by simp_all
  show ?thesis
    unfolding jaro_winkler_score_def Let_def mtp fst_conv snd_conv len num
      k1 k7 a b h2 n3 s1 s2 j k2 u t w
    by simp
qed

lemma score_hello_hallo:
  "jaro_winkler_score ''hello'' ''hallo'' = 432064089250857 / 562949953421312"
proof -
  have mtp: "matches ''hello'' ''hallo'' = (4, 3, 1)"
    by code_simp
  have num: "js_number 1 = 1" "js_number 3 = 3" "js_number 4 = 4" "js_number 5 = 5"
    by (simp_all add: js_number_small)
  have k1: "double (1 / 10) = 3602879701896397 / 36028797018963968"
    using double_eval [of "1 / 10" 56 7205759403792794] by simp
  have k7: "double (7 / 10) = 3152519739159347 / 4503599627370496"
    using double_eval [of "7 / 10" 53 6305039478318694] by simp
  have a: "fl_div 4 5 = (3602879701896397 / 4503599627370496)"
    unfolding fl_div_def
    using double_eval [of "4 / 5" 53 7205759403792794] by simp
  have h2: "fl_div 3 2 = (3 / 2)"
    unfolding fl_div_def
    using double_eval [of "3 / 2" 52 6755399441055744] by simp
  have n3: "fl_sub 4 (3 / 2) = (5 / 2)"
    unfolding fl_sub_def
    using double_eval [of "4 - (3 / 2)" 51 5629499534213120] by simp
  have c: "fl_div (5 / 2) 4 = (5 / 8)"
    unfolding fl_div_def
    using double_eval [of "(5 / 2) / 4" 53 5629499534213120] by simp
  have s1: "fl_add (3602879701896397 / 4503599627370496) (3602879701896397 / 4503599627370496) = (3602879701896397 / 2251799813685248)"
    unfolding fl_add_def
    using double_eval [of "(3602879701896397 / 4503599627370496) + (3602879701896397 / 4503599627370496)" 52 7205759403792794] by simp
  have s2: "fl_add (3602879701896397 / 2251799813685248) (5 / 8) = (5010254585449677 / 2251799813685248)"
    unfolding fl_add_def
    using double_eval [of "(3602879701896397 / 2251799813685248) + (5 / 8)" 51 5010254585449677] by simp
  have j: "fl_div (5010254585449677 / 2251799813685248) 3 = (1670084861816559 / 2251799813685248)"
    unfolding fl_div_def
    using double_eval [of "(5010254585449677 / 2251799813685248) / 3" 53 6680339447266236] by simp
  have k2: "fl_mul (3602879701896397 / 36028797018963968) 1 = (3602879701896397 / 36028797018963968)"
    unfolding fl_mul_def
    using double_eval [of "(3602879701896397 / 36028797018963968) * 1" 56 7205759403792794] by simp
  have u: "fl_sub 1 (1670084861816559 / 2251799813685248) = (581714951868689 / 2251799813685248)"
    unfolding fl_sub_def
    using double_eval [of "1 - (1670084861816559 / 2251799813685248)" 54 4653719614949512] by simp
  have t: "fl_mul (3602879701896397 / 36028797018963968) (581714951868689 / 2251799813685248) = (1861487845979805 / 72057594037927936)"
    unfolding fl_mul_def
    using double_eval [of "(3602879701896397 / 36028797018963968) * (581714951868689 / 2251799813685248)" 58 7445951383919220] by simp
  have w: "fl_add (1670084861816559 / 2251799813685248) (1861487845979805 / 72057594037927936) = (432064089250857 / 562949953421312)"
    unfolding fl_add_def
    using double_eval [of "(1670084861816559 / 2251799813685248) + (1861487845979805 / 72057594037927936)" 53 6913025428013712] by simp
  have len: "length ''hello'' = 5" "length ''hallo'' = 5"
    by simp_all
  show ?thesis
    unfolding jaro_winkler_score_def Let_def mtp fst_conv snd_conv len num
      k1 k7 a h2 n3 c s1 s2 j k2 u t w
    by simp
qed

text \<open>
  C4. The window radius of \<open>matches\<close> is \<open>max.length / 2 - 1\<close> without rounding down.
  For a longer string of length 3 it is 1/2 where the floored radius is 0, so for
  \<open>''a''\<close> against \<open>''bab''\<close> the scan from index 0 goes on to index 1 and finds a match
  outside the window \<open>[0, 0]\<close>. For the documented example \<open>''hello''\<close>, \<open>''hallo''\<close> the
  scan runs over half-integers, flags keys that are not indexes, and the score is the
  double 0.7675000000000001 where the documentation gives 0.88. For \<open>''a''\<close> against
  \<open>''bab''\<close> the score is the double 0.7777777777777777.
\<close>

theorem matching_window_is_not_floored:
  "matching_range ''bab'' = 1 / 2
   \<and> max (int (length ''bab'') div 2 - 1) 0 = 0
   \<and> find_match ''bab'' ''a'' (createFlags 3) 0 (3 / 2) = Some 1
   \<and> matches ''a'' ''bab'' = (1, 0, 0)
   \<and> JaroWinklerDistance_apply (Str ''a'') (Str ''bab'')
       = Inr (875699927544263 / 1125899906842624)
   \<and> matches ''hello'' ''hallo'' = (4, 3, 1)
   \<and> JaroWinklerDistance_apply (Str ''hello'') (Str ''hallo'')
       = Inr (432064089250857 / 562949953421312)"
proof -
  have scan: "matching_range ''bab'' = 1 / 2
      \<and> max (int (length ''bab'') div 2 - 1) 0 = 0
      \<and> find_match ''bab'' ''a'' (createFlags 3) 0 (3 / 2) = Some 1
      \<and> matches ''a'' ''bab'' = (1, 0, 0)
      \<and> matches ''hello'' ''hallo'' = (4, 3, 1)"
    by code_simp
  have scores: "JaroWinklerDistance_apply (Str ''a'') (Str ''bab'')
                  = Inr (875699927544263 / 1125899906842624)"
    "JaroWinklerDistance_apply (Str ''hello'') (Str ''hallo'')
       = Inr (432064089250857 / 562949953421312)"
    by (simp_all add: JaroWinklerDistance_apply_def score_a_bab score_hello_hallo)
  from scan scores show ?thesis
    by blast
qed

subsection \<open>The matrix of the unbounded forward pass\<close>

lemma lev_cell_zero [simp]: "lev_cell left right i 0 = int i"
  by (cases i) simp_all

lemma lev_cell_transpose: "lev_cell right left j i = lev_cell left right i j"
proof (induction left right i j rule: lev_cell.induct)
  case (1 left right j)
  show ?case by simp
next
  case (2 left right i)
  show ?case by simp
next
  case (3 left right i j)
  have "charAt right (int j) = charAt left (int i) \<longleftrightarrow> charAt left (int i) = charAt right (int j)"
    by auto
  with 3 show ?case
    by (simp add: min.commute min.left_commute)
qed

lemma fold_upt_inv:
  assumes "a \<le> b" "P a s" "\<And>i s. a \<le> i \<Longrightarrow> i < b \<Longrightarrow> P i s \<Longrightarrow> P (Suc i) (f i s)"
  shows "P b (fold f [a..<b] s)"
  using assms
proof (induction b)
  case 0
  then show ?case by simp
next
  case (Suc b)
  show ?case
  proof (cases "a = Suc b")
    case True
    with Suc.prems(2) show ?thesis by simp
  next
    case False
    with Suc.prems(1) have le: "a \<le> b" by simp
    have "P b (fold f [a..<b] s)"
      using Suc.IH [OF le Suc.prems(2)] Suc.prems(3) by simp
    then have "P (Suc b) (f b (fold f [a..<b] s))"
      using Suc.prems(3) [of b] le by simp
    then show ?thesis
      using le by simp
  qed
qed

lemma matrix_update_nth:
  assumes "j < length matrix" "i < length (matrix ! j)"
  shows "matrix[j := (matrix ! j)[i := v]] ! r ! c
           = (if r = j \<and> c = i then v else matrix ! r ! c)"
  using assms by (cases "r = j") (simp_all add: nth_list_update)

lemma matrix_update_length:
  "length (matrix[j := (matrix ! j)[i := v]]) = length matrix"
  "r < length matrix \<Longrightarrow> length (matrix[j := (matrix ! j)[i := v]] ! r) = length (matrix ! r)"
  by (cases "r = j"; simp add: nth_list_update)+


lemma dims_update:
  assumes "length matrix = m + 1" "\<forall>r\<le>m. length (matrix ! r) = n + 1"
  shows "length (matrix[j := (matrix ! j)[i := v]]) = m + 1
       \<and> (\<forall>r\<le>m. length (matrix[j := (matrix ! j)[i := v]] ! r) = n + 1)"
proof (intro conjI allI impI)
  show "length (matrix[j := (matrix ! j)[i := v]]) = m + 1"
    using assms(1) by simp
next
  fix r assume r: "r \<le> m"
  then have "r < length matrix"
    using assms(1) by simp
  then show "length (matrix[j := (matrix ! j)[i := v]] ! r) = n + 1"
    using assms(2) r by (simp add: matrix_update_length)
qed

lemma filled_update:
  assumes "filled left right j i matrix" "j \<le> length right" "i \<le> length left"
    and "v = lev_cell left right i j"
  shows "filled left right j (Suc i) (matrix[j := (matrix ! j)[i := v]])"
proof -
  have len: "length matrix = length right + 1"
    and rows: "\<And>r. r \<le> length right \<Longrightarrow> length (matrix ! r) = length left + 1"
    and cells: "\<And>r c. r \<le> length right \<Longrightarrow> c \<le> length left
                  \<Longrightarrow> r < j \<or> (r = j \<and> c < i) \<or> c = 0
                  \<Longrightarrow> matrix ! r ! c = lev_cell left right c r"
    using assms(1) unfolding filled_def by blast+
  have j: "j < length matrix" and i: "i < length (matrix ! j)"
    using len rows [OF assms(2)] assms(2,3) by simp_all
  note upd = matrix_update_nth [OF j i, of v]
  show ?thesis
    unfolding filled_def
  proof (intro conjI allI impI)
    show "length (matrix[j := (matrix ! j)[i := v]]) = length right + 1"
      using len by simp
  next
    fix r assume "r \<le> length right"
    then show "length (matrix[j := (matrix ! j)[i := v]] ! r) = length left + 1"
      using rows [of r] len by (simp add: matrix_update_length)
  next
    fix r c
    assume r: "r \<le> length right" and c: "c \<le> length left"
      and which: "r < j \<or> (r = j \<and> c < Suc i) \<or> c = 0"
    show "matrix[j := (matrix ! j)[i := v]] ! r ! c = lev_cell left right c r"
    proof (cases "r = j \<and> c = i")
      case True
      then show ?thesis
        using upd [of r c] assms(4) by simp
    next
      case False
      then have "r < j \<or> (r = j \<and> c < i) \<or> c = 0"
        using which by auto
      then have "matrix ! r ! c = lev_cell left right c r"
        by (rule cells [OF r c])
      then show ?thesis
        using upd [of r c] False by simp
    qed
  qed
qed

lemma unlimited_inner_filled:
  assumes p: "is_row left right (j - 1) (length left + 1) p"
    and j: "1 \<le> j" "j \<le> length right"
    and i: "1 \<le> i" "i \<le> length left"
    and d: "is_row left right j i d"
    and m: "filled left right j i matrix"
  shows "is_row left right j (Suc i)
           (fst (unlimited_inner left (charAt right (int j - 1)) p j i (d, matrix)))
       \<and> filled left right j (Suc i)
           (snd (unlimited_inner left (charAt right (int j - 1)) p j i (d, matrix)))"
proof -
  define v where "v = min (min (d ! (i - 1) + 1) (p ! i + 1))
      (p ! (i - 1) + (if charAt left (int i - 1) = charAt right (int j - 1) then 0 else 1))"
  obtain i' j' where ij: "i = Suc i'" "j = Suc j'"
    using i(1) j(1) by (metis One_nat_def Suc_le_D)
  have "d ! (i - 1) = lev_cell left right i' j"
    using d ij by (simp add: is_row_def)
  moreover have "p ! i = lev_cell left right i j'" "p ! (i - 1) = lev_cell left right i' j'"
    using p ij i(2) by (simp_all add: is_row_def)
  ultimately have v: "v = lev_cell left right i j"
    unfolding v_def ij by simp
  have len: "i < length d"
    using d i(2) by (simp add: is_row_def)
  have eq: "unlimited_inner left (charAt right (int j - 1)) p j i (d, matrix)
              = (d[i := v], matrix[j := (matrix ! j)[i := v]])"
    using len by (simp add: unlimited_inner_def Let_def v_def)
  have "is_row left right j (Suc i) (d[i := v])"
    using d v len by (auto simp: is_row_def nth_list_update less_Suc_eq)
  then show ?thesis
    unfolding eq using filled_update [OF m j(2) i(2) v] by simp
qed


lemma filled_next_row:
  assumes "filled left right j (length left + 1) matrix"
  shows "filled left right (Suc j) 1 matrix"
proof -
  have len: "length matrix = length right + 1"
    and rows: "\<forall>r\<le>length right. length (matrix ! r) = length left + 1"
    and cells: "\<And>r c. r \<le> length right \<Longrightarrow> c \<le> length left
                  \<Longrightarrow> r < j \<or> (r = j \<and> c < length left + 1) \<or> c = 0
                  \<Longrightarrow> matrix ! r ! c = lev_cell left right c r"
    using assms unfolding filled_def by blast+
  show ?thesis
    unfolding filled_def
  proof (intro conjI allI impI)
    fix r c
    assume r: "r \<le> length right" and c: "c \<le> length left"
      and "r < Suc j \<or> (r = Suc j \<and> c < 1) \<or> c = 0"
    then have "r < j \<or> (r = j \<and> c < length left + 1) \<or> c = 0"
      by auto
    then show "matrix ! r ! c = lev_cell left right c r"
      by (rule cells [OF r c])
  qed (use len rows in auto)
qed

lemma unlimited_outer_filled:
  assumes p: "is_row left right (j - 1) (length left + 1) p"
    and d: "length d = length left + 1"
    and j: "1 \<le> j" "j \<le> length right"
    and m: "filled left right j 1 matrix"
  shows "is_row left right j (length left + 1)
           (fst (unlimited_outer left right (length left) j (p, d, matrix)))
       \<and> length (fst (snd (unlimited_outer left right (length left) j (p, d, matrix))))
           = length left + 1
       \<and> filled left right (Suc j) 1
           (snd (snd (unlimited_outer left right (length left) j (p, d, matrix))))"
proof -
  let ?n = "length left"
  let ?rightJ = "charAt right (int j - 1)"
  let ?P = "\<lambda>i st. is_row left right j i (fst st) \<and> filled left right j i (snd st)"
  define F where "F = fold (unlimited_inner left ?rightJ p j) [1..<?n + 1] (d[0 := int j], matrix)"
  have eq: "unlimited_outer left right ?n j (p, d, matrix) = (fst F, p, snd F)"
    unfolding unlimited_outer_def Let_def F_def
    by (simp only: case_prod_beta prod.case fst_conv snd_conv)
  have "?P (?n + 1) F"
    unfolding F_def
  proof (rule fold_upt_inv [where P = ?P])
    show "1 \<le> ?n + 1" by simp
  next
    show "?P 1 (d[0 := int j], matrix)"
      using d m by (simp add: is_row_def)
  next
    fix i st
    assume "1 \<le> i" "i < ?n + 1" "?P i st"
    then show "?P (Suc i) (unlimited_inner left ?rightJ p j i st)"
      using unlimited_inner_filled [OF p j, of i "fst st" "snd st"] by simp
  qed
  then have "is_row left right j (?n + 1) (fst F)" "filled left right (Suc j) 1 (snd F)"
    using filled_next_row [of left right j "snd F"] by blast+
  then show ?thesis
    unfolding eq using p by (simp add: is_row_def)
qed

lemma init_row_is_row:
  "is_row left right 0 (length left + 1)
     (fold (\<lambda>i p. p[i := int i]) [0..<length left + 1] (createArray (length left + 1) (0::int)))"
proof -
  let ?n = "length left"
  let ?P = "\<lambda>k p. length p = ?n + 1 \<and> (\<forall>i<k. p ! i = int i)"
  have "?P (?n + 1) (fold (\<lambda>i p. p[i := int i]) [0..<?n + 1] (createArray (?n + 1) (0::int)))"
  proof (rule fold_upt_inv [where P = ?P])
    show "0 \<le> ?n + 1" by simp
  next
    show "?P 0 (createArray (?n + 1) (0::int))"
      by (simp add: createArray_def)
  next
    fix i and s :: "int list"
    assume "i < ?n + 1" "?P i s"
    then show "?P (Suc i) (s[i := int i])"
      by (auto simp: nth_list_update less_Suc_eq)
  qed
  then show ?thesis
    by (simp add: is_row_def)
qed

lemma init_matrix_filled: "filled left right 1 1 (init_matrix (length left) (length right))"
proof -
  let ?n = "length left" and ?m = "length right"
  let ?dims = "\<lambda>matrix. length matrix = ?m + 1 \<and> (\<forall>r\<le>?m. length (matrix ! r) = ?n + 1)"
  let ?P1 = "\<lambda>k matrix. ?dims matrix \<and> (\<forall>c<k. matrix ! 0 ! c = int c)"
  let ?P2 = "\<lambda>k matrix. ?dims matrix \<and> (\<forall>c\<le>?n. matrix ! 0 ! c = int c)
                         \<and> (\<forall>r<k. matrix ! r ! 0 = int r)"
  define M0 where "M0 = createArray (?m + 1) (createArray (?n + 1) (0::int))"
  define M1 where "M1 = fold (\<lambda>index mat. mat[0 := (mat ! 0)[index := int index]]) [0..<?n + 1] M0"
  define M2 where "M2 = fold (\<lambda>index mat. mat[index := (mat ! index)[0 := int index]]) [0..<?m + 1] M1"
  have "?P1 (?n + 1) M1"
    unfolding M1_def
  proof (rule fold_upt_inv [where P = ?P1])
    show "0 \<le> ?n + 1" by simp
  next
    show "?P1 0 M0"
      by (simp add: M0_def createArray_def less_Suc_eq_le del: replicate_Suc)
  next
    fix i and s :: "int list list"
    assume i: "i < ?n + 1" and s: "?P1 i s"
    then have inside: "0 < length s" "i < length (s ! 0)"
      by simp_all
    note upd = matrix_update_nth [OF this]
    have "?dims (s[0 := (s ! 0)[i := int i]])"
      using s by (intro dims_update) simp_all
    moreover have "\<forall>c<Suc i. s[0 := (s ! 0)[i := int i]] ! 0 ! c = int c"
      using s inside by (simp add: less_Suc_eq)
    ultimately show "?P1 (Suc i) (s[0 := (s ! 0)[i := int i]])"
      by blast
  qed
  then have one: "?P2 0 M1"
    by simp
  have "?P2 (?m + 1) M2"
    unfolding M2_def
  proof (rule fold_upt_inv [where P = ?P2])
    show "0 \<le> ?m + 1" by simp
  next
    show "?P2 0 M1" by (rule one)
  next
    fix i and s :: "int list list"
    assume i: "i < ?m + 1" and s: "?P2 i s"
    then have "i < length s" "0 < length (s ! i)"
      by simp_all
    note upd = matrix_update_nth [OF this]
    have "?dims (s[i := (s ! i)[0 := int i]])"
      using s by (intro dims_update) simp_all
    moreover have "\<forall>c\<le>?n. s[i := (s ! i)[0 := int i]] ! 0 ! c = int c"
      using s by (simp add: upd)
    moreover have "\<forall>r<Suc i. s[i := (s ! i)[0 := int i]] ! r ! 0 = int r"
      using s by (simp add: upd less_Suc_eq)
    ultimately show "?P2 (Suc i) (s[i := (s ! i)[0 := int i]])"
      by blast
  qed
  then have len: "length M2 = ?m + 1"
    and rows: "\<forall>r\<le>?m. length (M2 ! r) = ?n + 1"
    and row0: "\<And>c. c \<le> ?n \<Longrightarrow> M2 ! 0 ! c = int c"
    and col0: "\<And>r. r \<le> ?m \<Longrightarrow> M2 ! r ! 0 = int r"
    by (blast, blast, blast, simp)
  have "filled left right 1 1 M2"
    unfolding filled_def
  proof (intro conjI allI impI)
    fix r c
    assume r: "r \<le> ?m" and c: "c \<le> ?n" and which: "r < 1 \<or> (r = 1 \<and> c < 1) \<or> c = 0"
    show "M2 ! r ! c = lev_cell left right c r"
    proof (cases "c = 0")
      case True
      then show ?thesis using col0 [OF r] by simp
    next
      case False
      then have "r = 0" using which by auto
      then show ?thesis using row0 [OF c] by simp
    qed
  qed (use len rows in auto)
  moreover have "init_matrix ?n ?m = M2"
    unfolding init_matrix_def Let_def M2_def M1_def M0_def ..
  ultimately show ?thesis
    by simp
qed

lemma unlimited_matrix_cells:
  "filled left right (length right + 1) 1 (unlimited_matrix left right)"
proof -
  let ?n = "length left" and ?m = "length right"
  let ?P = "\<lambda>j st. is_row left right (j - 1) (?n + 1) (fst st)
                   \<and> length (fst (snd st)) = ?n + 1
                   \<and> filled left right j 1 (snd (snd st))"
  have "?P (?m + 1) (unlimited_pass left right)"
    unfolding unlimited_pass_def Let_def
  proof (rule fold_upt_inv [where P = ?P])
    show "1 \<le> ?m + 1" by simp
  next
    show "?P 1 (fold (\<lambda>i p. p[i := int i]) [0..<?n + 1] (createArray (?n + 1) (0::int)),
                createArray (?n + 1) (0::int), init_matrix ?n ?m)"
      using init_row_is_row [of left right] init_matrix_filled [of left right]
      by (simp add: createArray_def)
  next
    fix j and st :: "int list \<times> int list \<times> int list list"
    assume "1 \<le> j" "j < ?m + 1" "?P j st"
    then show "?P (Suc j) (unlimited_outer left right ?n j st)"
      using unlimited_outer_filled [of left right j "fst st" "fst (snd st)" "snd (snd st)"]
      by simp
  qed
  then show ?thesis
    by (simp add: unlimited_matrix_def)
qed

lemma unlimited_matrix_nth:
  "r \<le> length right \<Longrightarrow> c \<le> length left
     \<Longrightarrow> unlimited_matrix left right ! r ! c = lev_cell left right c r"
  using unlimited_matrix_cells [of left right] unfolding filled_def by auto


lemma loop_outside:
  "rowIndex < 0 \<or> columnIndex < 0 \<Longrightarrow>
   findDetailedResults_loop left right matrix swapped rowIndex columnIndex acc = acc"
  by (cases acc) (auto simp: findDetailedResults_loop.simps)

lemma loop_flag:
  "findDetailedResults_loop left right matrix (\<not> swapped) rowIndex columnIndex (flip acc)
     = flip (findDetailedResults_loop left right matrix swapped rowIndex columnIndex acc)"
proof (induction "nat (rowIndex + columnIndex + 2)" arbitrary: rowIndex columnIndex acc
       rule: less_induct)
  case less
  obtain a d s where acc: "acc = (a, d, s)"
    using prod_cases3 by blast
  show ?case
  proof (cases "rowIndex < 0 \<or> columnIndex < 0")
    case True
    then show ?thesis
      by (simp add: loop_outside)
  next
    case False
    then have nonneg: "0 \<le> rowIndex" "0 \<le> columnIndex"
      by simp_all
    note u1 = loop_by_move [OF nonneg, of left right matrix swapped a d s]
    note u2 = loop_by_move [OF nonneg, of left right matrix "\<not> swapped" d a s]
    have ih: "\<And>r c acc'. nat (r + c + 2) < nat (rowIndex + columnIndex + 2) \<Longrightarrow>
        findDetailedResults_loop left right matrix (\<not> swapped) r c (flip acc')
          = flip (findDetailedResults_loop left right matrix swapped r c acc')"
      by (rule less.hyps)
    show ?thesis
    proof (cases "next_move left right matrix rowIndex columnIndex")
      case Stop
      then show ?thesis
        unfolding acc flip.simps u1 u2 by simp
    next
      case Match
      then show ?thesis
        unfolding acc flip.simps u1 u2
        using ih [of "rowIndex - 1" "columnIndex - 1" "(a, d, s)"] nonneg by simp
    next
      case MoveLeft
      then show ?thesis
        unfolding acc flip.simps u1 u2
        using ih [of rowIndex "columnIndex - 1" "(a + 1, d, s)"]
          ih [of rowIndex "columnIndex - 1" "(a, d + 1, s)"] nonneg
        by (cases swapped) simp_all
    next
      case MoveTop
      then show ?thesis
        unfolding acc flip.simps u1 u2
        using ih [of "rowIndex - 1" columnIndex "(a + 1, d, s)"]
          ih [of "rowIndex - 1" columnIndex "(a, d + 1, s)"] nonneg
        by (cases swapped) simp_all
    next
      case Substitute
      then show ?thesis
        unfolding acc flip.simps u1 u2
        using ih [of "rowIndex - 1" "columnIndex - 1" "(a, d, s + 1)"] nonneg by simp
    qed
  qed
qed


lemma transposed_mono:
  "transposed M M' r c \<Longrightarrow> r' \<le> r \<Longrightarrow> c' \<le> c \<Longrightarrow> transposed M M' r' c'"
  by (auto simp: transposed_def)

lemma transposedD:
  "transposed M M' r c \<Longrightarrow> 0 \<le> r' \<Longrightarrow> r' \<le> r \<Longrightarrow> 0 \<le> c' \<Longrightarrow> c' \<le> c
     \<Longrightarrow> M' ! nat c' ! nat r' = M ! nat r' ! nat c'"
  by (auto simp: transposed_def)

lemma next_move_transposed:
  assumes nonneg: "0 \<le> rowIndex" "0 \<le> columnIndex"
    and tr: "transposed matrix matrix' rowIndex columnIndex"
  shows "next_move right left matrix' columnIndex rowIndex
           = mirror (next_move left right matrix rowIndex columnIndex)"
proof -
  note cell = transposedD [OF tr]
  obtain L where L: "(if columnIndex = 0 then - 1
                      else matrix ! nat rowIndex ! nat (columnIndex - 1)) = L"
    by simp
  obtain T where T: "(if rowIndex = 0 then - 1
                      else matrix ! nat (rowIndex - 1) ! nat columnIndex) = T"
    by simp
  obtain D where D: "(if rowIndex > 0 \<and> columnIndex > 0
                      then matrix ! nat (rowIndex - 1) ! nat (columnIndex - 1)
                      else - 1) = D"
    by simp
  obtain E where E: "(columnIndex > 0 \<and> rowIndex > 0
                   \<and> charAt left (columnIndex - 1) = charAt right (rowIndex - 1)) = E"
    by simp
  obtain data where data: "matrix ! nat rowIndex ! nat columnIndex = data"
    by simp
  have L': "(if rowIndex = 0 then - 1
             else matrix' ! nat columnIndex ! nat (rowIndex - 1)) = T"
    using T nonneg cell [of "rowIndex - 1" columnIndex] by (cases "rowIndex = 0") simp_all
  have T': "(if columnIndex = 0 then - 1
             else matrix' ! nat (columnIndex - 1) ! nat rowIndex) = L"
    using L nonneg cell [of rowIndex "columnIndex - 1"] by (cases "columnIndex = 0") simp_all
  have D': "(if columnIndex > 0 \<and> rowIndex > 0
             then matrix' ! nat (columnIndex - 1) ! nat (rowIndex - 1)
             else - 1) = D"
    using D nonneg cell [of "rowIndex - 1" "columnIndex - 1"]
    by (cases "columnIndex > 0 \<and> rowIndex > 0") auto
  have E': "(rowIndex > 0 \<and> columnIndex > 0
             \<and> charAt right (rowIndex - 1) = charAt left (columnIndex - 1)) = E"
    using E by auto
  have data': "matrix' ! nat columnIndex ! nat rowIndex = data"
    using data nonneg cell [of rowIndex columnIndex] by simp
  have mv: "next_move left right matrix rowIndex columnIndex =
     (if L = - 1 \<and> T = - 1 \<and> D = - 1 then Stop
      else if E then Match
      else if (data - 1 = L \<and> (data \<le> D \<and> data \<le> T)) \<or> (D = - 1 \<and> T = - 1) then MoveLeft
      else if (data - 1 = T \<and> (data \<le> D \<and> data \<le> L)) \<or> (D = - 1 \<and> L = - 1) then MoveTop
      else Substitute)"
    apply (simp only: next_move_def Let_def)
    apply (simp only: L T D E data)
    done
  have mv': "next_move right left matrix' columnIndex rowIndex =
     (if T = - 1 \<and> L = - 1 \<and> D = - 1 then Stop
      else if E then Match
      else if (data - 1 = T \<and> (data \<le> D \<and> data \<le> L)) \<or> (D = - 1 \<and> L = - 1) then MoveLeft
      else if (data - 1 = L \<and> (data \<le> D \<and> data \<le> T)) \<or> (D = - 1 \<and> T = - 1) then MoveTop
      else Substitute)"
    apply (simp only: next_move_def Let_def)
    apply (simp only: L' T' D' E' data')
    done
  show ?thesis
    unfolding mv mv' by auto
qed

lemma loop_transposed:
  "transposed matrix matrix' rowIndex columnIndex \<Longrightarrow>
   findDetailedResults_loop right left matrix' swapped columnIndex rowIndex (flip acc)
     = flip (findDetailedResults_loop left right matrix swapped rowIndex columnIndex acc)"
proof (induction "nat (rowIndex + columnIndex + 2)" arbitrary: rowIndex columnIndex acc
       rule: less_induct)
  case less
  obtain a d s where acc: "acc = (a, d, s)"
    using prod_cases3 by blast
  show ?case
  proof (cases "rowIndex < 0 \<or> columnIndex < 0")
    case True
    then have "columnIndex < 0 \<or> rowIndex < 0" by auto
    with True show ?thesis
      by (simp add: loop_outside)
  next
    case False
    then have nonneg: "0 \<le> rowIndex" "0 \<le> columnIndex"
      by simp_all
    note u1 = loop_by_move [OF nonneg, of left right matrix swapped a d s]
    note u2 = loop_by_move [OF nonneg(2,1), of right left matrix' swapped d a s]
    note mv = next_move_transposed [OF nonneg less.prems, of right left]
    have ih: "\<And>r c acc'. nat (r + c + 2) < nat (rowIndex + columnIndex + 2) \<Longrightarrow>
        r \<le> rowIndex \<Longrightarrow> c \<le> columnIndex \<Longrightarrow>
        findDetailedResults_loop right left matrix' swapped c r (flip acc')
          = flip (findDetailedResults_loop left right matrix swapped r c acc')"
      using less.hyps transposed_mono [OF less.prems] by blast
    show ?thesis
    proof (cases "next_move left right matrix rowIndex columnIndex")
      case Stop
      then show ?thesis
        unfolding acc flip.simps u1 u2 mv by simp
    next
      case Match
      then show ?thesis
        unfolding acc flip.simps u1 u2 mv
        using ih [of "rowIndex - 1" "columnIndex - 1" "(a, d, s)"] nonneg by simp
    next
      case MoveLeft
      then show ?thesis
        unfolding acc flip.simps u1 u2 mv
        using ih [of rowIndex "columnIndex - 1" "(a + 1, d, s)"]
          ih [of rowIndex "columnIndex - 1" "(a, d + 1, s)"] nonneg
        by (cases swapped) simp_all
    next
      case MoveTop
      then show ?thesis
        unfolding acc flip.simps u1 u2 mv
        using ih [of "rowIndex - 1" columnIndex "(a + 1, d, s)"]
          ih [of "rowIndex - 1" columnIndex "(a, d + 1, s)"] nonneg
        by (cases swapped) simp_all
    next
      case Substitute
      then show ?thesis
        unfolding acc flip.simps u1 u2 mv
        using ih [of "rowIndex - 1" "columnIndex - 1" "(a, d, s + 1)"] nonneg by simp
    qed
  qed
qed

lemma flip_result_twice: "flip_result (flip_result res) = res"
  by (simp add: flip_result_def)

lemma findDetailedResults_flag:
  "findDetailedResults left right matrix (\<not> swapped)
     = flip_result (findDetailedResults left right matrix swapped)"
proof -
  obtain a d s where run:
    "findDetailedResults_loop left right matrix swapped
       (int (length right)) (int (length left)) (0, 0, 0) = (a, d, s)"
    using prod_cases3 by blast
  have "findDetailedResults_loop left right matrix (\<not> swapped)
       (int (length right)) (int (length left)) (flip (0, 0, 0)) = flip (a, d, s)"
    unfolding loop_flag run ..
  then show ?thesis
    using run by (simp add: findDetailedResults_def flip_result_def new_LevenshteinResults_def)
qed

lemma findDetailedResults_transposed:
  assumes "transposed matrix matrix' (int (length right)) (int (length left))"
  shows "findDetailedResults right left matrix' swapped
           = flip_result (findDetailedResults left right matrix swapped)"
proof -
  obtain a d s where run:
    "findDetailedResults_loop left right matrix swapped
       (int (length right)) (int (length left)) (0, 0, 0) = (a, d, s)"
    using prod_cases3 by blast
  have "findDetailedResults_loop right left matrix' swapped
       (int (length left)) (int (length right)) (flip (0, 0, 0)) = flip (a, d, s)"
    unfolding loop_transposed [OF assms] run ..
  then show ?thesis
    using run by (simp add: findDetailedResults_def flip_result_def new_LevenshteinResults_def)
qed

lemma unlimited_matrix_transposed:
  "transposed (unlimited_matrix left right) (unlimited_matrix right left)
     (int (length right)) (int (length left))"
  unfolding transposed_def
proof (intro allI impI)
  fix r c :: int
  assume "0 \<le> r \<and> r \<le> int (length right) \<and> 0 \<le> c \<and> c \<le> int (length left)"
  then have r: "nat r \<le> length right" and c: "nat c \<le> length left"
    by auto
  show "unlimited_matrix right left ! nat c ! nat r = unlimited_matrix left right ! nat r ! nat c"
    unfolding unlimited_matrix_nth [OF r c] unlimited_matrix_nth [OF c r]
    by (rule lev_cell_transpose)
qed

lemma unlimitedCompare_body_flip:
  "unlimitedCompare_body right left = flip_result (unlimitedCompare_body left right)"
proof -
  consider (e1) "left = []" | (e2) "left \<noteq> []" "right = []"
    | (gt) "left \<noteq> []" "right \<noteq> []" "length left > length right"
    | (lt) "left \<noteq> []" "right \<noteq> []" "length left < length right"
    | (eq) "left \<noteq> []" "right \<noteq> []" "length left = length right"
    by (metis nat_neq_iff)
  then show ?thesis
  proof cases
    case e1
    then show ?thesis
      by (simp add: unlimitedCompare_body_def Let_def flip_result_def new_LevenshteinResults_def)
  next
    case e2
    then show ?thesis
      by (simp add: unlimitedCompare_body_def Let_def flip_result_def new_LevenshteinResults_def)
  next
    case gt
    then have "unlimitedCompare_body left right
                 = findDetailedResults right left (unlimited_matrix right left) True"
      and "unlimitedCompare_body right left
                 = findDetailedResults right left (unlimited_matrix right left) (\<not> True)"
      by (simp_all add: unlimitedCompare_body_def Let_def)
    then show ?thesis
      by (simp only: findDetailedResults_flag)
  next
    case lt
    then have "unlimitedCompare_body left right
                 = findDetailedResults left right (unlimited_matrix left right) False"
      and "unlimitedCompare_body right left
                 = findDetailedResults left right (unlimited_matrix left right) (\<not> False)"
      by (simp_all add: unlimitedCompare_body_def Let_def)
    then show ?thesis
      by (simp only: findDetailedResults_flag)
  next
    case eq
    then have "unlimitedCompare_body left right
                 = findDetailedResults left right (unlimited_matrix left right) False"
      and "unlimitedCompare_body right left
                 = findDetailedResults right left (unlimited_matrix right left) False"
      by (simp_all add: unlimitedCompare_body_def Let_def)
    then show ?thesis
      using findDetailedResults_transposed [OF unlimited_matrix_transposed, of left right False]
      by (simp add: flip_result_twice)
  qed
qed

text \<open>
  C7. For every two strings \<open>unlimitedCompare\<close>, and \<open>apply\<close> on the default instance,
  return results with the same distance for both orders of the arguments; the insert and
  delete counts are exchanged and the substitute count is the same.
\<close>

theorem unlimited_distance_symmetric:
  "\<exists>ra rb. unlimitedCompare (Str a) (Str b) = Inr ra
         \<and> unlimitedCompare (Str b) (Str a) = Inr rb
         \<and> LevenshteinDetailedDistance_apply DEFAULT_INSTANCE (Str a) (Str b) = Inr ra
         \<and> LevenshteinDetailedDistance_apply DEFAULT_INSTANCE (Str b) (Str a) = Inr rb
         \<and> distance ra = distance rb
         \<and> insertCount ra = deleteCount rb \<and> deleteCount ra = insertCount rb
         \<and> substituteCount ra = substituteCount rb"
  using unlimitedCompare_body_flip [of b a]
  by (simp add: unlimitedCompare_def LevenshteinDetailedDistance_apply_def DEFAULT_INSTANCE_def
      new_LevenshteinDetailedDistance_def flip_result_def)

subsection \<open>The Jaro-Winkler score\<close>

text \<open>
  Rounding decides the branch of the score. These two strings have 11 matches, no
  transposition and a common prefix of 4; the exact value of \<open>j\<close> would be 7/10, the
  doubles give 0.6999999999999998, below the double 0.7, and the score is \<open>j\<close> itself.
\<close>

lemma score_rounded_below_threshold:
  "jaro_winkler_score ''abcdefghijk0000'' ''abcdefghijk1111111111111111111'' = 6305039478318693 / 9007199254740992"
proof -
  have mtp: "matches ''abcdefghijk0000'' ''abcdefghijk1111111111111111111'' = (11, 0, 4)"
    by code_simp
  have num: "js_number 0 = 0" "js_number 4 = 4" "js_number 11 = 11" "js_number 15 = 15" "js_number 30 = 30"
    by (simp_all add: js_number_small)
  have k1: "double (1 / 10) = 3602879701896397 / 36028797018963968"
    using double_eval [of "1 / 10" 56 7205759403792794] by simp
  have k7: "double (7 / 10) = 3152519739159347 / 4503599627370496"
    using double_eval [of "7 / 10" 53 6305039478318694] by simp
  have a: "fl_div 11 15 = (6605279453476727 / 9007199254740992)"
    unfolding fl_div_def
    using double_eval [of "11 / 15" 53 6605279453476727] by simp
  have b: "fl_div 11 30 = (6605279453476727 / 18014398509481984)"
    unfolding fl_div_def
    using double_eval [of "11 / 30" 54 6605279453476727] by simp
  have h2: "fl_div 0 2 = 0"
    by (simp add: fl_div_def double_zero)
  have n3: "fl_sub 11 0 = 11"
    unfolding fl_sub_def
    using double_eval [of "11 - 0" 49 6192449487634432] by simp
  have c: "fl_div 11 11 = 1"
    unfolding fl_div_def
    using double_eval [of "11 / 11" 52 4503599627370496] by simp
  have s1: "fl_add (6605279453476727 / 9007199254740992) (6605279453476727 / 18014398509481984) = (4953959590107545 / 4503599627370496)"
    unfolding fl_add_def
    using double_eval [of "(6605279453476727 / 9007199254740992) + (6605279453476727 / 18014398509481984)" 52 4953959590107545] by simp
  have s2: "fl_add (4953959590107545 / 4503599627370496) 1 = (1182194902184755 / 562949953421312)"
    unfolding fl_add_def
    using double_eval_tie [of "(4953959590107545 / 4503599627370496) + 1" 51 4728779608739020] by simp
  have j: "fl_div (1182194902184755 / 562949953421312) 3 = (6305039478318693 / 9007199254740992)"
    unfolding fl_div_def
    using double_eval [of "(1182194902184755 / 562949953421312) / 3" 53 6305039478318693] by simp
  have len: "length ''abcdefghijk0000'' = 15" "length ''abcdefghijk1111111111111111111'' = 30"
    by simp_all
  show ?thesis
    unfolding jaro_winkler_score_def Let_def mtp fst_conv snd_conv len num
      k1 k7 a b h2 n3 c s1 s2 j
    by simp
qed

lemma filter_update_le:
  "length (filter P (xs[i := v])) \<le> Suc (length (filter P xs))"
proof (induction xs arbitrary: i)
  case Nil
  show ?case by simp
next
  case (Cons x xs)
  show ?case
  proof (cases i)
    case 0
    then show ?thesis by simp
  next
    case (Suc k)
    then show ?thesis using Cons [of k] by simp
  qed
qed

lemma match_step_inv:
  assumes "length (fst st) = n" "snd (snd st) \<le> k"
    "length (filter (\<lambda>x. x \<noteq> - 1) (fst st)) \<le> snd (snd st)"
  shows "length (fst (match_step max_str min_str rng mi st)) = n
       \<and> snd (snd (match_step max_str min_str rng mi st)) \<le> Suc k
       \<and> length (filter (\<lambda>x. x \<noteq> - 1) (fst (match_step max_str min_str rng mi st)))
           \<le> snd (snd (match_step max_str min_str rng mi st))"
proof -
  obtain matchIndexes matchFlags matches where st: "st = (matchIndexes, matchFlags, matches)"
    using prod_cases3 by blast
  show ?thesis
  proof (cases "find_match max_str (charAt min_str (int mi)) matchFlags
                  (max (of_nat mi - rng) 0)
                  (min (of_nat mi + rng + 1) (of_nat (length max_str)))")
    case None
    then show ?thesis
      using assms by (simp add: st match_step_def Let_def)
  next
    case (Some xi)
    have "length (filter (\<lambda>x. x \<noteq> - 1) (matchIndexes[mi := xi]))
            \<le> Suc (length (filter (\<lambda>x. x \<noteq> - 1) matchIndexes))"
      by (rule filter_update_le)
    then show ?thesis
      using assms Some by (simp add: st match_step_def Let_def)
  qed
qed

lemma match_fold_inv:
  fixes max_str min_str :: "'a list" and rng :: rat and flags :: "rat \<rightharpoonup> bool"
  defines "F \<equiv> fold (match_step max_str min_str rng) [0..<length min_str]
                  (createArray (length min_str) (- 1), flags, 0)"
  shows "length (fst F) = length min_str"
    and "snd (snd F) \<le> length min_str"
    and "length (filter (\<lambda>x. x \<noteq> - 1) (fst F)) \<le> snd (snd F)"
proof -
  let ?P = "\<lambda>k (st :: rat list \<times> (rat \<rightharpoonup> bool) \<times> nat).
      length (fst st) = length min_str \<and> snd (snd st) \<le> k
      \<and> length (filter (\<lambda>x. x \<noteq> - 1) (fst st)) \<le> snd (snd st)"
  have "?P (length min_str) F"
    unfolding F_def
  proof (rule fold_upt_inv [where P = ?P])
    show "0 \<le> length min_str" by simp
  next
    show "?P 0 (createArray (length min_str) (- 1), flags, 0)"
      by (simp add: createArray_def)
  next
    fix i and s :: "rat list \<times> (rat \<rightharpoonup> bool) \<times> nat"
    assume "?P i s"
    then show "?P (Suc i) (match_step max_str min_str rng i s)"
      using match_step_inv [of s "length min_str" i max_str min_str rng i] by blast
  qed
  then show "length (fst F) = length min_str"
    and "snd (snd F) \<le> length min_str"
    and "length (filter (\<lambda>x. x \<noteq> - 1) (fst F)) \<le> snd (snd F)"
    by blast+
qed

lemma ms1_fold_length:
  assumes "length (filter (\<lambda>x. x \<noteq> - 1) matchIndexes) \<le> cnt"
    and "n \<le> length matchIndexes"
  shows "length (fst (fold (\<lambda>i (ms1, si). if matchIndexes ! i \<noteq> - 1
                                 then (js_store ms1 si (f i), si + 1)
                                 else (ms1, si))
              [0..<n] (createArray cnt v, 0::nat))) = cnt"
proof -
  let ?step = "\<lambda>i (ms1, si). if matchIndexes ! i \<noteq> - 1
                                 then (js_store ms1 si (f i), si + 1)
                                 else (ms1, si)"
  let ?count = "\<lambda>k. length (filter (\<lambda>x. x \<noteq> - 1) (take k matchIndexes))"
  let ?P = "\<lambda>k st. length (fst st) = cnt \<and> snd st = ?count k"
  have "?P n (fold ?step [0..<n] (createArray cnt v, 0::nat))"
  proof (rule fold_upt_inv [where P = ?P])
    show "0 \<le> n" by simp
  next
    show "?P 0 (createArray cnt v, 0::nat)"
      by (simp add: createArray_def)
  next
    fix i and s :: "'b list \<times> nat"
    assume i: "i < n" and s: "?P i s"
    then have il: "i < length matchIndexes"
      using assms(2) by simp
    have tk: "take (Suc i) matchIndexes = take i matchIndexes @ [matchIndexes ! i]"
      using il by (rule take_Suc_conv_app_nth)
    have "?count (Suc i) \<le> length (filter (\<lambda>x. x \<noteq> - 1) matchIndexes)"
      by (metis append_take_drop_id filter_append le_add1 length_append)
    then have bound: "?count (Suc i) \<le> cnt"
      using assms(1) by simp
    show "?P (Suc i) (?step i s)"
    proof (cases "matchIndexes ! i \<noteq> - 1")
      case True
      then have "?count (Suc i) = Suc (?count i)"
        by (simp add: tk)
      then show ?thesis
        using s True bound by (simp add: case_prod_beta js_store_def)
    next
      case False
      then show ?thesis
        using s by (simp add: case_prod_beta tk)
    qed
  qed
  then show ?thesis
    by simp
qed

lemma half_transpositions_le:
  "fold (\<lambda>mi h. if Q mi then h + 1 else h) [0..<n] (0::nat) \<le> n"
proof -
  let ?P = "\<lambda>k (h::nat). h \<le> k"
  show ?thesis
    by (rule fold_upt_inv [where P = ?P]) auto
qed

lemma prefix_loop_le:
  "prefix_loop first second bound mi prefix \<le> prefix + (bound - mi)"
proof (induction "bound - mi" arbitrary: mi prefix rule: less_induct)
  case less
  show ?case
  proof (cases "mi < bound")
    case True
    show ?thesis
    proof (cases "charAt first (int mi) = charAt second (int mi)")
      case same: True
      have "prefix_loop first second bound mi prefix
              = prefix_loop first second bound (mi + 1) (prefix + 1)"
        using True same by (subst prefix_loop.simps) simp
      moreover have "prefix_loop first second bound (mi + 1) (prefix + 1)
                       \<le> prefix + 1 + (bound - (mi + 1))"
        using True by (intro less.hyps) simp
      ultimately show ?thesis
        using True by simp
    next
      case False
      then have "prefix_loop first second bound mi prefix = prefix"
        using True by (subst prefix_loop.simps) simp
      then show ?thesis by simp
    qed
  next
    case False
    then have "prefix_loop first second bound mi prefix = prefix"
      by (subst prefix_loop.simps) simp
    then show ?thesis by simp
  qed
qed


lemma matches_bounds:
  "fst (matches first second) \<le> length first
   \<and> fst (matches first second) \<le> length second
   \<and> fst (snd (matches first second)) \<le> fst (matches first second)
   \<and> snd (snd (matches first second)) \<le> 4"
proof -
  obtain mx mn where sel:
    "(if length first > length second then (first, second) else (second, first)) = (mx, mn)"
    by fastforce
  then have mn: "length mn \<le> length first" "length mn \<le> length second"
    by (auto split: if_splits)
  define F where "F = fold (match_step mx mn (matching_range mx)) [0..<length mn]
                        (createArray (length mn) (- 1), createFlags (length mx), 0)"
  define G where "G = fold (\<lambda>i (ms1, si). if fst F ! i \<noteq> - 1
                                 then (js_store ms1 si (charAt mn (int i)), si + 1)
                                 else (ms1, si))
                        [0..<length mn] (createArray (snd (snd F)) [], 0::nat)"
  have eq1: "fst (matches first second) = snd (snd F)"
    unfolding matches_def Let_def sel F_def
    by (simp only: case_prod_beta prod.case fst_conv snd_conv)
  have le2: "fst (snd (matches first second)) \<le> length (fst G)"
    unfolding matches_def Let_def sel F_def G_def
    by (simp only: case_prod_beta prod.case fst_conv snd_conv) (rule half_transpositions_le)
  have eq3: "snd (snd (matches first second)) = prefix_loop first second (min 4 (length mn)) 0 0"
    unfolding matches_def Let_def sel
    by (simp only: case_prod_beta prod.case fst_conv snd_conv)
  note inv = match_fold_inv [of mx mn "matching_range mx" "createFlags (length mx)",
      folded F_def]
  have len: "length (fst G) = snd (snd F)"
    unfolding G_def using inv(3) inv(1) by (intro ms1_fold_length) simp_all
  have "snd (snd (matches first second)) \<le> 4"
    unfolding eq3 using prefix_loop_le [of first second "min 4 (length mn)" 0 0] by simp
  then show ?thesis
    using le2 inv(2) mn len eq1 by simp
qed

lemma jaro_winkler_score_bounds:
  "0 \<le> jaro_winkler_score left right \<and> jaro_winkler_score left right \<le> 1"
proof -
  obtain m h p where mtp: "matches left right = (m, h, p)"
    using prod_cases3 by blast
  have b: "m \<le> length left" "m \<le> length right" "h \<le> m" "p \<le> 4"
    using matches_bounds [of left right] by (simp_all add: mtp)
  show ?thesis
  proof (cases "m = 0")
    case True
    then show ?thesis
      by (simp add: jaro_winkler_score_def mtp js_number_def double_zero)
  next
    case False
    define M L R H P where "M = js_number m" and "L = js_number (length left)"
      and "R = js_number (length right)" and "H = js_number h" and "P = js_number p"
    have one: "js_number 1 = 1" and four: "js_number 4 = 4"
      using js_number_small [of 1] js_number_small [of 4] by simp_all
    have "js_number 1 \<le> M"
      unfolding M_def using False by (intro js_number_mono) simp
    then have M1: "1 \<le> M"
      by (simp only: one)
    have "0 \<le> H"
      unfolding H_def js_number_def by (intro double_nonneg) simp
    have "0 \<le> P"
      unfolding P_def js_number_def by (intro double_nonneg) simp
    have "P \<le> js_number 4"
      unfolding P_def using b(4) by (rule js_number_mono)
    then have P4: "P \<le> 4"
      by (simp only: four)
    have M_le_L: "M \<le> L" and M_le_R: "M \<le> R" and H_le_M: "H \<le> M"
      unfolding M_def L_def R_def H_def using b by (simp_all add: js_number_mono)
    have dM: "double M = M"
      unfolding M_def by (rule js_number_idem)
    define a where "a = fl_div M L"
    define b' where "b' = fl_div M R"
    define h2 where "h2 = fl_div H 2"
    define n3 where "n3 = fl_sub M h2"
    define c where "c = fl_div n3 M"
    define j where "j = fl_div (fl_add (fl_add a b') c) 3"
    have a: "0 \<le> a" "a \<le> 1"
      unfolding a_def fl_div_def using M1 M_le_L by (simp_all add: double_unit)
    have b': "0 \<le> b'" "b' \<le> 1"
      unfolding b'_def fl_div_def using M1 M_le_R by (simp_all add: double_unit)
    have h2: "0 \<le> h2" "h2 \<le> M"
    proof -
      show "0 \<le> h2"
        unfolding h2_def fl_div_def using \<open>0 \<le> H\<close> by (intro double_nonneg) simp
      have "double (H / 2) \<le> double M"
        using \<open>0 \<le> H\<close> H_le_M by (intro double_mono) simp_all
      then show "h2 \<le> M"
        unfolding h2_def fl_div_def dM .
    qed
    have n3: "0 \<le> n3" "n3 \<le> M"
    proof -
      show "0 \<le> n3"
        unfolding n3_def fl_sub_def using h2 by (intro double_nonneg) simp
      have "double (M - h2) \<le> double M"
        using h2 by (intro double_mono) simp_all
      then show "n3 \<le> M"
        unfolding n3_def fl_sub_def dM .
    qed
    have c: "0 \<le> c" "c \<le> 1"
      unfolding c_def fl_div_def using M1 n3 by (simp_all add: double_unit)
    have two: "double 2 = 2" and three: "double 3 = 3"
      using double_of_nat [of 2] double_of_nat [of 3] by simp_all
    have s1: "0 \<le> fl_add a b'" "fl_add a b' \<le> 2"
    proof -
      show "0 \<le> fl_add a b'"
        unfolding fl_add_def using a b' by (intro double_nonneg) simp
      have "double (a + b') \<le> double 2"
        using a b' by (intro double_mono) simp_all
      then show "fl_add a b' \<le> 2"
        unfolding fl_add_def two .
    qed
    have s2: "0 \<le> fl_add (fl_add a b') c" "fl_add (fl_add a b') c \<le> 3"
    proof -
      show "0 \<le> fl_add (fl_add a b') c"
        unfolding fl_add_def [of _ c] using s1 c by (intro double_nonneg) simp
      have "double (fl_add a b' + c) \<le> double 3"
        using s1 c by (intro double_mono) simp_all
      then show "fl_add (fl_add a b') c \<le> 3"
        unfolding fl_add_def [of _ c] three .
    qed
    have j: "0 \<le> j" "j \<le> 1"
      unfolding j_def fl_div_def using s2 by (simp_all add: double_unit)
    define E :: rat where "E = 1 + 1 / 2 ^ 53"
    have E: "0 \<le> E" "E * E \<le> 2"
      by (simp_all add: E_def)
    define u where "u = fl_sub 1 j"
    define k1 where "k1 = double (1 / 10)"
    define k2 where "k2 = fl_mul k1 P"
    define t where "t = fl_mul k2 u"
    have u: "0 \<le> u" "u \<le> (1 - j) * E"
    proof -
      show "0 \<le> u"
        unfolding u_def fl_sub_def using j by (intro double_nonneg) simp
      show "u \<le> (1 - j) * E"
        unfolding u_def fl_sub_def E_def using j by (intro double_upper) simp
    qed
    have eighth: "double (1 / 8) = 1 / 8" and half: "double (1 / 2) = 1 / 2"
      using norm_round_twice [of "1 / 8"] norm_round_twice [of "1 / 4"]
        norm_round_twice [of "1 / 2"] norm_round_of_int [of 1 1]
      by (simp_all add: double_def)
    have k1: "0 \<le> k1" "k1 \<le> 1 / 8"
    proof -
      show "0 \<le> k1"
        unfolding k1_def by (intro double_nonneg) simp
      have "double (1 / 10) \<le> double (1 / 8)"
        by (intro double_mono) simp_all
      then show "k1 \<le> 1 / 8"
        unfolding k1_def eighth .
    qed
    have prod: "0 \<le> k1 * P" "k1 * P \<le> 1 / 2"
    proof -
      show "0 \<le> k1 * P"
        using k1 \<open>0 \<le> P\<close> by simp
      have "k1 * P \<le> (1 / 8) * 4"
        using k1 P4 \<open>0 \<le> P\<close> by (intro mult_mono) simp_all
      then show "k1 * P \<le> 1 / 2"
        by simp
    qed
    have k2: "0 \<le> k2" "k2 \<le> 1 / 2"
    proof -
      show "0 \<le> k2"
        unfolding k2_def fl_mul_def using prod by (intro double_nonneg)
      have "double (k1 * P) \<le> double (1 / 2)"
        using prod by (intro double_mono)
      then show "k2 \<le> 1 / 2"
        unfolding k2_def fl_mul_def half .
    qed
    have t: "0 \<le> t" "t \<le> 1 - j"
    proof -
      have ku: "0 \<le> k2 * u"
        using k2 u by simp
      then show "0 \<le> t"
        unfolding t_def fl_mul_def by (rule double_nonneg)
      have "t \<le> (k2 * u) * E"
        unfolding t_def fl_mul_def E_def using ku by (rule double_upper)
      also have "(k2 * u) * E \<le> ((1 / 2) * ((1 - j) * E)) * E"
        using k2 u E(1) j by (intro mult_right_mono mult_mono) simp_all
      also have "\<dots> = (1 / 2) * (E * E) * (1 - j)"
        by simp
      also have "\<dots> \<le> (1 / 2) * 2 * (1 - j)"
        using E(2) j by (intro mult_right_mono mult_left_mono) simp_all
      finally show "t \<le> 1 - j"
        by simp
    qed
    have w: "0 \<le> fl_add j t" "fl_add j t \<le> 1"
      unfolding fl_add_def using j t by (simp_all add: double_unit)
    have "M \<noteq> 0"
      using M1 by simp
    then have "jaro_winkler_score left right = (if j < double (7 / 10) then j else fl_add j t)"
      by (simp add: jaro_winkler_score_def mtp Let_def j_def a_def b'_def c_def n3_def h2_def
          t_def k2_def k1_def u_def M_def L_def R_def H_def P_def)
    then show ?thesis
      using j w by simp
  qed
qed

lemma jaro_winkler_score_empty:
  "left = [] \<or> right = [] \<Longrightarrow> jaro_winkler_score left right = 0"
  using matches_bounds [of left right]
  by (auto simp: jaro_winkler_score_def Let_def js_number_def double_zero)

text \<open>
  C8. \<open>apply\<close> of JaroWinklerDistance returns 0 when both strings are empty and when
  one of them is empty, and for every two strings it returns a score from 0 to 1. The
  score is the double that the code returns, each operation rounded.
\<close>

theorem jaro_winkler_zero_and_bounded:
  "JaroWinklerDistance_apply (Str []) (Str []) = Inr 0
   \<and> JaroWinklerDistance_apply (Str []) (Str s) = Inr 0
   \<and> JaroWinklerDistance_apply (Str s) (Str []) = Inr 0
   \<and> (\<exists>score. JaroWinklerDistance_apply (Str left) (Str right) = Inr score
          \<and> 0 \<le> score \<and> score \<le> 1)"
  using jaro_winkler_score_bounds [of left right]
  by (simp add: JaroWinklerDistance_apply_def jaro_winkler_score_empty)

end
